theory Spec2Isabelle
  imports Main
begin

section \<open>Token model\<close>

text \<open>
  The statement and expression trees the compiler consumes.  A variable reference carries
  the pair \<open>[name, index]\<close>; the index is either a number (a static index) or a value
  token (a dynamic index).  A literal is a number, a string or a boolean, as
  \<open>setValue\<close> accepts.
\<close>

datatype PrimitiveType = TypeChar | TypeNumber

datatype literal = LitNumber int | LitString string | LitBoolean bool

datatype operator = OpPlus | OpMinus | OpTimes | OpDivide

datatype ValueToken =
    LiteralToken literal
  | VariableToken string index
  | MathToken operator ValueToken ValueToken
  | MaxToken
and index = IndexNumber int | IndexExpr ValueToken

text \<open>
  The payload of an \<open>Abstract\<close> token.  Its declared type is an array of the eight
  instruction characters (what the parser builds); the builtin \<open>__dump\<close> stores the
  bare string \<open>&\<close> there.  Appending either to the output string follows JavaScript's
  string conversion: an array is joined with commas.
\<close>

datatype bf_op = BfRight | BfLeft | BfPlus | BfMinus | BfComma | BfDot | BfOpen | BfClose

datatype abstract_bf = BfArray "bf_op list" | BfString string

datatype UnsafeToken =
    GotoToken int
  | AddToken ValueToken
  | ReduceToken ValueToken
  | UnsafeShowToken
  | UnsafeLoopToken "UnsafeToken list"
  | UnsafeAbstractToken abstract_bf

datatype Token =
    DeclarationToken string PrimitiveType "int option"
  | AssignToken string index ValueToken
  | ShowToken ValueToken
  | LoopToken ValueToken "Token list"
  | IfToken ValueToken "Token list"
  | InputToken string
  | UnsafeBlock int "UnsafeToken list"
  | FunctionToken string "Token list"
  | CallToken string
  | RemoveToken string

section \<open>Compiler state\<close>

text \<open>
  \<open>memoryUsage\<close> is a JavaScript \<open>Map\<close>: iteration follows insertion order, \<open>set\<close>
  on a present key keeps its position, \<open>delete\<close> removes the entry.  It is modelled as
  an association list with these operations.  The three kinds of entry are \<open>null\<close>
  (freed), \<open>undefined\<close> (temporary) and the object of a named cell.
\<close>

datatype usage = Freed | Temporary | Named string int PrimitiveType

text \<open>
  The module-level variables of the compiler.  \<open>functionsMap\<close> is the source's
  \<open>functions\<close>; it starts with the builtin \<open>__dump\<close> and, unlike the other variables, is
  not touched by the reset at the start of \<open>compile\<close>.
\<close>

record var_info =
  base :: int
  len :: int
  vtype :: PrimitiveType

record cstate =
  brainfuckCode :: string
  memoryUsage :: "(int \<times> usage) list"
  variables :: "(string \<times> var_info) list"
  pointerLocation :: int
  functionsMap :: "(string \<times> Token list) list"
  unsafePointerLocation :: "int option"

text \<open>
  One error for each \<open>throw\<close> of the compiler.  The message of the undeclared-variable
  error may end with a spelling suggestion, which is not part of the model; the error
  carries the name that was looked up.  \<open>StackOverflow\<close> is the engine's error for a
  function that calls itself without end.
\<close>

datatype error =
    VariableNotDeclared string
  | UnsupportedOperator
  | UnsafePointerNotInitialized
  | Woopsies
  | FunctionNotDefined string
  | UnhandledToken
  | StackOverflow

fun map_set :: "'k \<Rightarrow> 'v \<Rightarrow> ('k \<times> 'v) list \<Rightarrow> ('k \<times> 'v) list" where
  "map_set k v [] = [(k, v)]"
| "map_set k v ((k', v') # m) =
     (if k' = k then (k, v) # m else (k', v') # map_set k v m)"

fun map_delete :: "'k \<Rightarrow> ('k \<times> 'v) list \<Rightarrow> ('k \<times> 'v) list" where
  "map_delete k [] = []"
| "map_delete k ((k', v') # m) = (if k' = k then m else (k', v') # map_delete k m)"

definition builtin_functions :: "(string \<times> Token list) list" where
  "builtin_functions =
     [(''__dump'', [UnsafeBlock 1 [UnsafeAbstractToken (BfString ''&'')]])]"

definition initial_state :: cstate where
  "initial_state =
     \<lparr>brainfuckCode = [], memoryUsage = [], variables = [], pointerLocation = 0,
      functionsMap = builtin_functions, unsafePointerLocation = None\<rparr>"

section \<open>Helpers of the compiler\<close>

definition emit :: "string \<Rightarrow> cstate \<Rightarrow> cstate" where
  "emit s st = st\<lparr>brainfuckCode := brainfuckCode st @ s\<rparr>"

text \<open>Runs a sequence of state updates in order, as consecutive statements do.\<close>

definition steps :: "(cstate \<Rightarrow> cstate) list \<Rightarrow> cstate \<Rightarrow> cstate" where
  "steps fs st = fold (\<lambda>f s. f s) fs st"

text \<open>
  \<open>findEmptyLocation\<close>: walks the entries in insertion order, remembers the key of the
  last entry that is not \<open>null\<close>, and returns the first key whose entry is \<open>null\<close>.
\<close>

fun findEmptyLocation_loop :: "(int \<times> usage) list \<Rightarrow> int \<Rightarrow> int" where
  "findEmptyLocation_loop [] lastOccupiedIndex = lastOccupiedIndex + 1"
| "findEmptyLocation_loop ((locationIndex, details) # m) lastOccupiedIndex =
     (if details \<noteq> Freed then findEmptyLocation_loop m locationIndex else locationIndex)"

definition findEmptyLocation :: "cstate \<Rightarrow> int" where
  "findEmptyLocation st = findEmptyLocation_loop (memoryUsage st) (- 1)"

definition setUsage :: "int \<Rightarrow> usage \<Rightarrow> cstate \<Rightarrow> cstate" where
  "setUsage loc u st = st\<lparr>memoryUsage := map_set loc u (memoryUsage st)\<rparr>"

text \<open>
  \<open>moveTo\<close>: the first while loop calls \<open>movePointerRight\<close> (one \<open>>\<close>, pointer plus
  one) while the pointer is below the target, the second calls \<open>movePointerLeft\<close> (one
  \<open><\<close>, pointer minus one) while it is above.  Together they emit the distance in
  moves and leave the tracked pointer at the target.
\<close>

definition moveTo :: "int \<Rightarrow> cstate \<Rightarrow> cstate" where
  "moveTo locationIndex st =
     (let p = pointerLocation st in
      emit (if p < locationIndex then replicate (nat (locationIndex - p)) CHR ''>''
            else replicate (nat (p - locationIndex)) CHR ''<'')
        (st\<lparr>pointerLocation := locationIndex\<rparr>))"

definition clearCell :: "cstate \<Rightarrow> cstate" where
  "clearCell st = emit ''[-]'' st"

text \<open>\<open>charCodeAt(0)\<close> of the empty string is NaN, for which no increment is emitted.\<close>

definition charCodeAt0 :: "string \<Rightarrow> nat" where
  "charCodeAt0 s = (case s of [] \<Rightarrow> 0 | c # _ \<Rightarrow> of_char c)"

fun setValue :: "literal \<Rightarrow> cstate \<Rightarrow> cstate" where
  "setValue (LitNumber v) st =
     (let st1 = clearCell st in
      if v > 0 then emit (replicate (nat v) CHR ''+'') st1
      else if v < 0 then emit (replicate (nat (- v)) CHR ''-'') st1
      else st1)"
| "setValue (LitBoolean b) st =
     (let st1 = clearCell st in if b then emit ''+'' st1 else st1)"
| "setValue (LitString s) st =
     (let st1 = clearCell st; code = charCodeAt0 s in
      if code > 0 then emit (replicate code CHR ''+'') st1 else st1)"

text \<open>
  \<open>copy\<close>: allocates two cells, drains the source into both, restores the source from
  the first, frees the first and returns the second.
\<close>

definition copy :: "int \<Rightarrow> cstate \<Rightarrow> int \<times> cstate" where
  "copy cell st =
     (let st1 = moveTo cell st;
          location1 = findEmptyLocation st1;
          st2 = setUsage location1 Temporary st1;
          location2 = findEmptyLocation st2;
          st3 = setUsage location2 Temporary st2;
          st4 = steps
            [emit ''['', moveTo location1, emit ''+'', moveTo location2, emit ''+'',
             moveTo cell, emit ''-'', emit '']'',
             moveTo location1, emit ''['', moveTo cell, emit ''+'', moveTo location1,
             emit ''-'', emit '']'',
             moveTo location1, clearCell, setUsage location1 Freed] st3
      in (location2, st4))"

definition add :: "int \<Rightarrow> int \<Rightarrow> cstate \<Rightarrow> int \<times> cstate" where
  "add a b st =
     (let (copiedA, st1) = copy a st;
          (copiedB, st2) = copy b st1;
          targetLocation = findEmptyLocation st2;
          st3 = setUsage targetLocation Temporary st2;
          st4 = steps
            [moveTo copiedA, emit ''['', moveTo targetLocation, emit ''+'', moveTo copiedA,
             emit ''-'', emit '']'',
             moveTo copiedB, emit ''['', moveTo targetLocation, emit ''+'', moveTo copiedB,
             emit ''-'', emit '']'',
             moveTo copiedA, clearCell, setUsage copiedA Freed,
             moveTo copiedB, clearCell, setUsage copiedB Freed] st3
      in (targetLocation, st4))"

definition subtract :: "int \<Rightarrow> int \<Rightarrow> cstate \<Rightarrow> int \<times> cstate" where
  "subtract a b st =
     (let targetLocation = findEmptyLocation st;
          st1 = setUsage targetLocation Temporary st;
          (copiedA, st2) = copy a st1;
          (copiedB, st3) = copy b st2;
          st4 = steps
            [moveTo copiedA, emit ''['', moveTo targetLocation, emit ''+'', moveTo copiedA,
             emit ''-'', emit '']'',
             moveTo copiedB, emit ''['', moveTo targetLocation, emit ''-'', moveTo copiedB,
             emit ''-'', emit '']'',
             moveTo copiedA, clearCell, setUsage copiedA Freed,
             moveTo copiedB, clearCell, setUsage copiedB Freed] st3
      in (targetLocation, st4))"

text \<open>
  \<open>subtract\<close> as the earlier revision \<open>src/src/compiler/index.ts\<close> has it.  Its helpers
  \<open>findEmptyLocation\<close>, \<open>moveTo\<close> and \<open>copy\<close> are those of the later revision; the function
  ends with the second loop and neither clears the two copies nor marks them free.
\<close>

definition subtract_index :: "int \<Rightarrow> int \<Rightarrow> cstate \<Rightarrow> int \<times> cstate" where
  "subtract_index a b st =
     (let targetLocation = findEmptyLocation st;
          st1 = setUsage targetLocation Temporary st;
          (copiedA, st2) = copy a st1;
          (copiedB, st3) = copy b st2;
          st4 = steps
            [moveTo copiedA, emit ''['', moveTo targetLocation, emit ''+'', moveTo copiedA,
             emit ''-'', emit '']'',
             moveTo copiedB, emit ''['', moveTo targetLocation, emit ''-'', moveTo copiedB,
             emit ''-'', emit '']''] st3
      in (targetLocation, st4))"

text \<open>
  \<open>findVariableLocation\<close>: the first entry, in insertion order, that is a named cell of
  this name and index.
\<close>

fun findVariableLocation_in :: "(int \<times> usage) list \<Rightarrow> string \<Rightarrow> int \<Rightarrow> int option" where
  "findVariableLocation_in [] name idx = None"
| "findVariableLocation_in ((loc, details) # m) name idx =
     (case details of
        Named n i t \<Rightarrow> if n = name \<and> i = idx then Some loc
                       else findVariableLocation_in m name idx
      | _ \<Rightarrow> findVariableLocation_in m name idx)"

definition findVariableLocation :: "string \<Rightarrow> int \<Rightarrow> cstate \<Rightarrow> int option" where
  "findVariableLocation name idx st = findVariableLocation_in (memoryUsage st) name idx"


definition lookupVariable :: "string \<Rightarrow> cstate \<Rightarrow> var_info option" where
  "lookupVariable name st = map_of (variables st) name"

section \<open>Dynamic array indexing\<close>

text \<open>
  One round of the \<open>for\<close> loop of \<open>getVariableValueAtDynamicIndex\<close>, for element \<open>i\<close>:
  compare the index with \<open>i\<close> and, guarded by the flag, add a copy of the element to
  the result cell.
\<close>

text \<open>
  The inner loop \<open>for (k = 0; k < i; k++) { moveTo(comp2); emit "-" }\<close>: the first round
  moves to the cell, the later rounds find the pointer there.
\<close>

definition decrementTimes :: "int \<Rightarrow> int \<Rightarrow> cstate \<Rightarrow> cstate" where
  "decrementTimes cell i st =
     (if i > 0 then emit (replicate (nat i) CHR ''-'') (moveTo cell st) else st)"

definition getDynamic_round :: "int \<Rightarrow> int \<Rightarrow> int \<Rightarrow> int \<Rightarrow> cstate \<Rightarrow> cstate" where
  "getDynamic_round base_addr idxCell resultLoc i st =
     (let (comp, st1) = copy idxCell st;
          flag = findEmptyLocation st1;
          st2 = steps
            [setUsage flag Temporary, moveTo flag, setValue (LitNumber 1),
             moveTo comp, emit ''['', moveTo flag, clearCell, moveTo comp, emit ''-'',
             emit '']''] st1;
          st3 =
            (if i > 0 then
               (let (comp2, s1) = copy idxCell st2;
                    s2 = decrementTimes comp2 i s1;
                    flag2 = findEmptyLocation s2;
                    s3 = steps
                      [setUsage flag2 Temporary, moveTo flag2, setValue (LitNumber 1),
                       moveTo comp2, emit ''['', moveTo flag2, emit ''[-]'', moveTo comp2,
                       emit ''-'', emit '']'',
                       moveTo flag2, emit ''[''] s2;
                    (copyOfElem, s4) = copy (base_addr + i) s3
                in steps
                     [moveTo copyOfElem, emit ''['', moveTo resultLoc, emit ''+'',
                      moveTo copyOfElem, emit ''-'', emit '']'',
                      moveTo copyOfElem, clearCell, setUsage copyOfElem Freed,
                      moveTo flag2, clearCell, setUsage flag2 Freed,
                      emit '']'',
                      moveTo comp2, clearCell, setUsage comp2 Freed] s4)
             else
               (let s1 = steps [moveTo flag, emit ''[''] st2;
                    (copyOfElem, s2) = copy (base_addr + i) s1
                in steps
                     [moveTo copyOfElem, emit ''['', moveTo resultLoc, emit ''+'',
                      moveTo copyOfElem, emit ''-'', emit '']'',
                      moveTo copyOfElem, clearCell, setUsage copyOfElem Freed,
                      moveTo flag, clearCell, setUsage flag Freed,
                      emit '']''] s2))
      in steps [moveTo comp, clearCell, setUsage comp Freed] st3)"

definition getDynamic_scan :: "int \<Rightarrow> int \<Rightarrow> int \<Rightarrow> cstate \<Rightarrow> int \<times> cstate" where
  "getDynamic_scan base_addr n idxCell st =
     (let resultLoc = findEmptyLocation st;
          st1 = setUsage resultLoc Temporary st
      in (resultLoc,
          fold (\<lambda>i. getDynamic_round base_addr idxCell resultLoc (int i))
            [0..<nat n] st1))"

text \<open>
  \<open>evalValue\<close> and \<open>getVariableValueAtDynamicIndex\<close> call each other: a dynamic index
  is itself a value token.
\<close>

fun evalValue :: "ValueToken \<Rightarrow> cstate \<Rightarrow> error + (int \<times> cstate)"
and getVariableValueAtDynamicIndex ::
  "string \<Rightarrow> ValueToken \<Rightarrow> cstate \<Rightarrow> error + (int \<times> cstate)"
where
  "evalValue (LiteralToken v) st =
     (let loc = findEmptyLocation st
      in Inr (loc, steps [setUsage loc Temporary, moveTo loc, setValue v] st))"
| "evalValue (VariableToken name (IndexNumber idx)) st =
     (case findVariableLocation name idx st of
        None \<Rightarrow> Inl (VariableNotDeclared name)
      | Some src \<Rightarrow> Inr (src, st))"
| "evalValue (VariableToken name (IndexExpr idx)) st =
     getVariableValueAtDynamicIndex name idx st"
| "evalValue (MathToken OpPlus left right) st =
     (case evalValue left st of
        Inl e \<Rightarrow> Inl e
      | Inr (a, st1) \<Rightarrow>
          (case evalValue right st1 of
             Inl e \<Rightarrow> Inl e
           | Inr (b, st2) \<Rightarrow> Inr (add a b st2)))"
| "evalValue (MathToken OpMinus left right) st =
     (case evalValue left st of
        Inl e \<Rightarrow> Inl e
      | Inr (a, st1) \<Rightarrow>
          (case evalValue right st1 of
             Inl e \<Rightarrow> Inl e
           | Inr (b, st2) \<Rightarrow> Inr (subtract a b st2)))"
| "evalValue (MathToken OpTimes left right) st = Inl UnsupportedOperator"
| "evalValue (MathToken OpDivide left right) st = Inl UnsupportedOperator"
| "evalValue MaxToken st =
     (let loc = findEmptyLocation st
      in Inr (loc, steps [setUsage loc Temporary, moveTo loc, emit ''[-]-''] st))"
| "getVariableValueAtDynamicIndex name indexExpr st =
     (case lookupVariable name st of
        None \<Rightarrow> Inl (VariableNotDeclared name)
      | Some info \<Rightarrow>
          (case evalValue indexExpr st of
             Inl e \<Rightarrow> Inl e
           | Inr (idxCell, st1) \<Rightarrow> Inr (getDynamic_scan (base info) (len info) idxCell st1)))"

text \<open>One round of the \<open>for\<close> loop of \<open>setVariableAtDynamicIndex\<close>, for element \<open>i\<close>.\<close>

definition setDynamic_round :: "int \<Rightarrow> int \<Rightarrow> int \<Rightarrow> int \<Rightarrow> cstate \<Rightarrow> cstate" where
  "setDynamic_round base_addr idxCell valueCell i st =
     (let (comp, st1) = copy idxCell st;
          flag2 = findEmptyLocation st1;
          st2 = steps
            [setUsage flag2 Temporary, moveTo flag2, setValue (LitNumber 1),
             moveTo comp, emit ''['', moveTo flag2, emit ''[-]'', moveTo comp, emit ''-'',
             emit '']''] st1;
          st3 =
            (if i > 0 then
               (let (comp2, s1) = copy idxCell st2;
                    s2 = decrementTimes comp2 i s1;
                    flag3 = findEmptyLocation s2;
                    target = base_addr + i;
                    s3 = steps
                      [setUsage flag3 Temporary, moveTo flag3, setValue (LitNumber 1),
                       moveTo comp2, emit ''['', moveTo flag3, emit ''[-]'', moveTo comp2,
                       emit ''-'', emit '']'',
                       moveTo flag3, emit ''['',
                       moveTo target, clearCell] s2;
                    (copyOfValue, s4) = copy valueCell s3
                in steps
                     [moveTo copyOfValue, emit ''['', moveTo target, emit ''+'',
                      moveTo copyOfValue, emit ''-'', emit '']'',
                      moveTo copyOfValue, clearCell, setUsage copyOfValue Freed,
                      moveTo flag3, clearCell, setUsage flag3 Freed,
                      emit '']'',
                      moveTo comp2, clearCell, setUsage comp2 Freed] s4)
             else
               (let target = base_addr + i;
                    s1 = steps [moveTo flag2, emit ''['', moveTo target, clearCell] st2;
                    (copyOfValue, s2) = copy valueCell s1
                in steps
                     [moveTo copyOfValue, emit ''['', moveTo target, emit ''+'',
                      moveTo copyOfValue, emit ''-'', emit '']'',
                      moveTo copyOfValue, clearCell, setUsage copyOfValue Freed,
                      moveTo flag2, clearCell, setUsage flag2 Freed,
                      emit '']''] s2))
      in steps [moveTo comp, clearCell, setUsage comp Freed] st3)"

text \<open>
  \<open>memoryUsage.get(valueCell) === undefined\<close> holds for a temporary cell and for an
  address with no entry.
\<close>

definition setVariableAtDynamicIndex ::
  "string \<Rightarrow> ValueToken \<Rightarrow> ValueToken \<Rightarrow> cstate \<Rightarrow> error + cstate" where
  "setVariableAtDynamicIndex name indexExpr v st =
     (case lookupVariable name st of
        None \<Rightarrow> Inl (VariableNotDeclared name)
      | Some info \<Rightarrow>
          (case evalValue indexExpr st of
             Inl e \<Rightarrow> Inl e
           | Inr (idxCell, st1) \<Rightarrow>
               (case evalValue v st1 of
                  Inl e \<Rightarrow> Inl e
                | Inr (valueCell, st2) \<Rightarrow>
                    (let st3 = fold (\<lambda>i. setDynamic_round (base info) idxCell valueCell (int i))
                                 [0..<nat (len info)] st2
                     in if map_of (memoryUsage st3) valueCell \<in> {None, Some Temporary}
                        then Inr (steps [moveTo valueCell, clearCell,
                                         setUsage valueCell Freed] st3)
                        else Inr st3))))"


section \<open>Unsafe blocks\<close>

text \<open>Appending an \<open>Abstract\<close> payload to the output string.\<close>

fun bf_op_char :: "bf_op \<Rightarrow> char" where
  "bf_op_char BfRight = CHR ''>''"
| "bf_op_char BfLeft = CHR ''<''"
| "bf_op_char BfPlus = CHR ''+''"
| "bf_op_char BfMinus = CHR ''-''"
| "bf_op_char BfComma = CHR '',''"
| "bf_op_char BfDot = CHR ''.''"
| "bf_op_char BfOpen = CHR ''[''"
| "bf_op_char BfClose = CHR '']''"

fun join_commas :: "bf_op list \<Rightarrow> string" where
  "join_commas [] = []"
| "join_commas [x] = [bf_op_char x]"
| "join_commas (x # y # ys) = bf_op_char x # CHR '','' # join_commas (y # ys)"

fun abstract_text :: "abstract_bf \<Rightarrow> string" where
  "abstract_text (BfArray ops) = join_commas ops"
| "abstract_text (BfString s) = s"

text \<open>
  The drain of the amount copy into the cell of the unsafe pointer, shared in shape by
  \<open>UnsafeAdd\<close> (\<open>+\<close>) and \<open>UnsafeReduce\<close> (\<open>-\<close>).  The null check comes after the
  amount has been evaluated and copied.
\<close>

definition unsafePointerOrZero :: "cstate \<Rightarrow> int" where
  "unsafePointerOrZero st = (case unsafePointerLocation st of None \<Rightarrow> 0 | Some p \<Rightarrow> p)"

definition unsafeDrain :: "string \<Rightarrow> ValueToken \<Rightarrow> cstate \<Rightarrow> error + cstate" where
  "unsafeDrain sign amount st =
     (case evalValue amount st of
        Inl e \<Rightarrow> Inl e
      | Inr (amountCell, st1) \<Rightarrow>
          (let (copyOfAmount, st2) = copy amountCell st1
           in case unsafePointerLocation st2 of
                None \<Rightarrow> Inl UnsafePointerNotInitialized
              | Some up \<Rightarrow>
                  Inr (steps [moveTo copyOfAmount, emit ''['', moveTo up, emit sign,
                              moveTo copyOfAmount, emit ''-'', emit '']''] st2)))"

fun compileUnsafe :: "UnsafeToken list \<Rightarrow> cstate \<Rightarrow> error + cstate"
and compileUnsafeToken :: "UnsafeToken \<Rightarrow> cstate \<Rightarrow> error + cstate"
where
  "compileUnsafe [] st = Inr st"
| "compileUnsafe (token # tokens) st =
     (case compileUnsafeToken token st of
        Inl e \<Rightarrow> Inl e
      | Inr st1 \<Rightarrow> compileUnsafe tokens st1)"
| "compileUnsafeToken (AddToken amount) st = unsafeDrain ''+'' amount st"
| "compileUnsafeToken (ReduceToken amount) st = unsafeDrain ''-'' amount st"
| "compileUnsafeToken (GotoToken loc) st =
     (case unsafePointerLocation st of
        None \<Rightarrow> Inl UnsafePointerNotInitialized
      | Some up \<Rightarrow>
          (let target = up + loc
           in Inr ((moveTo target st)\<lparr>unsafePointerLocation := Some target\<rparr>)))"
| "compileUnsafeToken UnsafeShowToken st =
     (case unsafePointerLocation st of
        None \<Rightarrow> Inl UnsafePointerNotInitialized
      | Some up \<Rightarrow> Inr (steps [moveTo up, emit ''.''] st))"
| "compileUnsafeToken (UnsafeLoopToken body) st =
     (case unsafePointerLocation st of
        None \<Rightarrow> Inl UnsafePointerNotInitialized
      | Some up \<Rightarrow>
          (case compileUnsafe body (steps [moveTo up, emit ''[''] st) of
             Inl e \<Rightarrow> Inl e
           | Inr st1 \<Rightarrow> Inr (steps [moveTo (unsafePointerOrZero st1), emit '']''] st1)))"
| "compileUnsafeToken (UnsafeAbstractToken bf) st = Inr (emit (abstract_text bf) st)"

section \<open>Contiguous regions\<close>

text \<open>
  \<open>findContiguousFreeRegion\<close>: every key of \<open>memoryUsage\<close> counts as used, whatever its
  entry.  The inner \<open>for\<close> loop looks for the first used address of the candidate run and
  restarts just after it.
\<close>

function findContiguousFreeRegion_from :: "int list \<Rightarrow> int \<Rightarrow> int \<Rightarrow> int" where
  "findContiguousFreeRegion_from used sz start =
     (case find (\<lambda>i. start + int i \<in> set used) [0..<nat sz] of
        None \<Rightarrow> start
      | Some i \<Rightarrow> findContiguousFreeRegion_from used sz (start + int i + 1))"
  by pat_completeness auto
termination
proof (relation "measure (\<lambda>(used, sz, start). card {x \<in> set used. start \<le> x})")
  show "wf (measure (\<lambda>(used, sz, start). card {x \<in> set used. start \<le> x}))"
    by simp
next
  fix used :: "int list" and sz start :: int and i :: nat
  assume "find (\<lambda>i. start + int i \<in> set used) [0..<nat sz] = Some i"
  then have mem: "start + int i \<in> set used"
    by (auto simp: find_Some_iff)
  have "start + int i \<in> {x \<in> set used. start \<le> x}"
    and "start + int i \<notin> {x \<in> set used. start + int i + 1 \<le> x}"
    using mem by auto
  then have "{x \<in> set used. start + int i + 1 \<le> x} \<noteq> {x \<in> set used. start \<le> x}"
    by metis
  moreover have "{x \<in> set used. start + int i + 1 \<le> x} \<subseteq> {x \<in> set used. start \<le> x}"
    by auto
  ultimately
  have "{x \<in> set used. start + int i + 1 \<le> x} \<subset> {x \<in> set used. start \<le> x}"
    by blast
  then have "card {x \<in> set used. start + int i + 1 \<le> x} < card {x \<in> set used. start \<le> x}"
    by (intro psubset_card_mono) auto
  then show "((used, sz, start + int i + 1), (used, sz, start))
      \<in> measure (\<lambda>(used, sz, start). card {x \<in> set used. start \<le> x})"
    by simp
qed

definition findContiguousFreeRegion :: "int \<Rightarrow> cstate \<Rightarrow> int" where
  "findContiguousFreeRegion sz st =
     findContiguousFreeRegion_from (map fst (memoryUsage st)) sz 0"

section \<open>The statement compiler\<close>

definition resetState :: "cstate \<Rightarrow> cstate" where
  "resetState st =
     st\<lparr>brainfuckCode := [], memoryUsage := [], pointerLocation := 0,
        unsafePointerLocation := None, variables := []\<rparr>"

definition declareArray :: "string \<Rightarrow> PrimitiveType \<Rightarrow> int \<Rightarrow> cstate \<Rightarrow> cstate" where
  "declareArray name ty n st =
     (let baseAddress = findContiguousFreeRegion n st;
          st1 = fold (\<lambda>i. steps [setUsage (baseAddress + int i) (Named name (int i) ty),
                                  moveTo (baseAddress + int i), clearCell])
                  [0..<nat n] st
      in st1\<lparr>variables :=
               map_set name \<lparr>base = baseAddress, len = n, vtype = ty\<rparr> (variables st1)\<rparr>)"

definition declareScalar :: "string \<Rightarrow> PrimitiveType \<Rightarrow> cstate \<Rightarrow> cstate" where
  "declareScalar name ty st =
     (let locationIndex = findEmptyLocation st;
          st1 = setUsage locationIndex (Named name 0 ty) st
      in st1\<lparr>variables :=
               map_set name \<lparr>base = locationIndex, len = 1, vtype = ty\<rparr> (variables st1)\<rparr>)"

text \<open>The drain loop that adds the cell \<open>src\<close> to the cell \<open>target\<close>, emptying \<open>src\<close>.\<close>

definition drainInto :: "int \<Rightarrow> int \<Rightarrow> cstate \<Rightarrow> cstate" where
  "drainInto src target st =
     steps [moveTo src, emit ''['', moveTo target, emit ''+'', moveTo src, emit ''-'',
            emit '']''] st"

definition assignStatic :: "int \<Rightarrow> ValueToken \<Rightarrow> cstate \<Rightarrow> error + cstate" where
  "assignStatic targetLocation v st =
     (case v of
        LiteralToken l \<Rightarrow> Inr (steps [moveTo targetLocation, setValue l] st)
      | VariableToken name idx \<Rightarrow>
          (let st1 = steps [moveTo targetLocation, clearCell] st
           in case (case idx of
                      IndexNumber k \<Rightarrow>
                        (case findVariableLocation name k st1 of
                           None \<Rightarrow> Inl (VariableNotDeclared name)
                         | Some src \<Rightarrow> Inr (src, st1))
                    | IndexExpr e \<Rightarrow> evalValue v st1) of
                Inl e \<Rightarrow> Inl e
              | Inr (sourceLocation, st2) \<Rightarrow>
                  (let (copyLocation, st3) = copy sourceLocation (moveTo sourceLocation st2)
                   in Inr (drainInto copyLocation targetLocation st3)))
      | MathToken opr l r \<Rightarrow>
          (case evalValue v st of
             Inl e \<Rightarrow> Inl e
           | Inr (resultCell, st1) \<Rightarrow>
               Inr (drainInto resultCell targetLocation
                      (steps [moveTo targetLocation, clearCell] st1)))
      | MaxToken \<Rightarrow> Inr (steps [moveTo targetLocation, clearCell, emit ''-''] st))"

text \<open>
  The output instruction of \<open>show\<close>: \<open>~\<close> for a variable declared \<open>char\<close> and for a
  string literal, \<open>.\<close> otherwise.
\<close>

definition usageType :: "usage option \<Rightarrow> PrimitiveType option" where
  "usageType u = (case u of Some (Named n i t) \<Rightarrow> Some t | _ \<Rightarrow> None)"

definition showsAsChar :: "ValueToken \<Rightarrow> cstate \<Rightarrow> bool" where
  "showsAsChar v st =
     (case v of
        VariableToken name (IndexNumber k) \<Rightarrow>
          usageType (map_of (memoryUsage st)
            (case findVariableLocation name k st of None \<Rightarrow> - 1 | Some loc \<Rightarrow> loc))
          = Some TypeChar
      | VariableToken name (IndexExpr e) \<Rightarrow>
          map_option vtype (lookupVariable name st) = Some TypeChar
      | LiteralToken (LitString s) \<Rightarrow> True
      | _ \<Rightarrow> False)"

text \<open>
  The condition cell of \<open>loop\<close> and \<open>if\<close>: a direct lookup for a variable with a static
  index, an evaluation otherwise.
\<close>

definition conditionCell :: "ValueToken \<Rightarrow> cstate \<Rightarrow> error + (int \<times> cstate)" where
  "conditionCell condition st =
     (case condition of
        VariableToken name (IndexNumber k) \<Rightarrow>
          (case findVariableLocation name k st of
             None \<Rightarrow> Inl Woopsies
           | Some c \<Rightarrow> Inr (c, st))
      | _ \<Rightarrow> evalValue condition st)"

definition reserveUnsafe :: "int \<Rightarrow> cstate \<Rightarrow> int \<times> cstate" where
  "reserveUnsafe safetySize st =
     (let start = findContiguousFreeRegion safetySize st;
          st1 = fold (\<lambda>i. setUsage (start + int i) Freed) [0..<nat safetySize] st
      in (start, moveTo start (st1\<lparr>unsafePointerLocation := Some start\<rparr>)))"

definition releaseUnsafe :: "int \<Rightarrow> int \<Rightarrow> cstate \<Rightarrow> cstate" where
  "releaseUnsafe start safetySize st =
     (let st1 = fold (\<lambda>i s. clearCell (moveTo (start + int i)
                        (s\<lparr>memoryUsage := map_delete (start + int i) (memoryUsage s)\<rparr>)))
                  [0..<nat safetySize] st
      in st1\<lparr>unsafePointerLocation := None\<rparr>)"

text \<open>
  \<open>compile\<close>.  The body of a loop or of an \<open>if\<close> is compiled with \<open>reset = false\<close>; a
  call compiles the registered body with the default \<open>reset = true\<close> and appends the
  string it returns to the string read before the call.  A function that calls itself
  recurses without end in the source, which the JavaScript engine stops with a stack
  overflow; the model counts nested calls down from \<open>fuel\<close>.
\<close>

fun compile_tokens :: "nat \<Rightarrow> Token list \<Rightarrow> cstate \<Rightarrow> error + cstate"
and compile_token :: "nat \<Rightarrow> Token \<Rightarrow> cstate \<Rightarrow> error + cstate"
where
  "compile_tokens fuel [] st = Inr st"
| "compile_tokens fuel (token # code) st =
     (case compile_token fuel token st of
        Inl e \<Rightarrow> Inl e
      | Inr st1 \<Rightarrow> compile_tokens fuel code st1)"
| "compile_token fuel (DeclarationToken name ty arr) st =
     (case arr of
        Some n \<Rightarrow> Inr (declareArray name ty n st)
      | None \<Rightarrow> Inr (declareScalar name ty st))"
| "compile_token fuel (AssignToken name (IndexExpr e) v) st =
     setVariableAtDynamicIndex name e v st"
| "compile_token fuel (AssignToken name (IndexNumber k) v) st =
     (case findVariableLocation name k st of
        None \<Rightarrow> Inl (VariableNotDeclared name)
      | Some targetLocation \<Rightarrow> assignStatic targetLocation v st)"
| "compile_token fuel (ShowToken v) st =
     (case evalValue v st of
        Inl e \<Rightarrow> Inl e
      | Inr (valueLocation, st1) \<Rightarrow>
          (let st2 = moveTo valueLocation st1
           in Inr (emit (if showsAsChar v st2 then ''~'' else ''.'') st2)))"
| "compile_token fuel (LoopToken condition body) st =
     (case conditionCell condition st of
        Inl e \<Rightarrow> Inl e
      | Inr (condCell, st1) \<Rightarrow>
          (case compile_tokens fuel body (steps [moveTo condCell, emit ''[''] st1) of
             Inl e \<Rightarrow> Inl e
           | Inr st2 \<Rightarrow> Inr (steps [moveTo condCell, emit '']''] st2)))"
| "compile_token fuel (InputToken name) st =
     (case findVariableLocation name 0 st of
        None \<Rightarrow> Inl (VariableNotDeclared name)
      | Some entryLoc \<Rightarrow>
          if entryLoc = 0 then Inl (VariableNotDeclared name)
          else Inr (steps [moveTo entryLoc, emit '',''] st))"
| "compile_token fuel (IfToken condition body) st =
     (case conditionCell condition st of
        Inl e \<Rightarrow> Inl e
      | Inr (condCell, st1) \<Rightarrow>
          (case compile_tokens fuel body (steps [moveTo condCell, emit ''[''] st1) of
             Inl e \<Rightarrow> Inl e
           | Inr st2 \<Rightarrow> Inr (steps [moveTo condCell, clearCell, emit '']''] st2)))"
| "compile_token fuel (UnsafeBlock safetySize body) st =
     (let (start, st1) = reserveUnsafe safetySize st
      in case compileUnsafe body st1 of
           Inl e \<Rightarrow> Inl e
         | Inr st2 \<Rightarrow> Inr (releaseUnsafe start safetySize st2))"
| "compile_token fuel (FunctionToken name body) st =
     Inr (st\<lparr>functionsMap := map_set name body (functionsMap st)\<rparr>)"
| "compile_token 0 (CallToken name) st =
     (case map_of (functionsMap st) name of
        None \<Rightarrow> Inl (FunctionNotDefined name)
      | Some funcCode \<Rightarrow> Inl StackOverflow)"
| "compile_token (Suc fuel) (CallToken name) st =
     (case map_of (functionsMap st) name of
        None \<Rightarrow> Inl (FunctionNotDefined name)
      | Some funcCode \<Rightarrow>
          (case compile_tokens fuel funcCode (resetState st) of
             Inl e \<Rightarrow> Inl e
           | Inr st1 \<Rightarrow> Inr (st1\<lparr>brainfuckCode := brainfuckCode st @ brainfuckCode st1\<rparr>)))"
| "compile_token fuel (RemoveToken name) st = Inl UnhandledToken"

definition compile :: "nat \<Rightarrow> Token list \<Rightarrow> error + string" where
  "compile fuel code =
     (case compile_tokens fuel code (resetState initial_state) of
        Inl e \<Rightarrow> Inl e
      | Inr st \<Rightarrow> Inr (brainfuckCode st))"


section \<open>The executor\<close>

text \<open>
  \<open>brainfuck(code, {input, useNumberInputs, bits})\<close>.  A cell holds a JavaScript number:
  a natural number or NaN (from \<open>parseInt\<close> of a character that is no digit, and from
  \<open>% bits\<close> when \<open>bits\<close> is zero).  The memory is the array of 30000 zeros, kept as the
  list of the cells written so far; a cell never written reads as zero.  Strings are
  lists of UTF-16 code units.
\<close>

datatype cell = Num nat | NaN

record bf_options =
  input :: "nat list"
  useNumberInputs :: bool
  bits :: nat

record bf_state =
  memory :: "(nat \<times> cell) list"
  dataPointer :: nat
  instructionPointer :: nat
  outputText :: "nat list"
  inputPointer :: nat

datatype bf_error = UnmatchedOpen | UnmatchedClose

definition memorySize :: nat where
  "memorySize = 30000"

definition utf16 :: "string \<Rightarrow> nat list" where
  "utf16 s = map of_char s"

definition mem_get :: "(nat \<times> cell) list \<Rightarrow> nat \<Rightarrow> cell" where
  "mem_get m a = (case map_of m a of None \<Rightarrow> Num 0 | Some c \<Rightarrow> c)"

definition mem_set :: "(nat \<times> cell) list \<Rightarrow> nat \<Rightarrow> cell \<Rightarrow> (nat \<times> cell) list" where
  "mem_set m a c = map_set a c m"

definition js_mod :: "nat \<Rightarrow> nat \<Rightarrow> cell" where
  "js_mod x m = (if m = 0 then NaN else Num (x mod m))"

definition cell_inc :: "nat \<Rightarrow> cell \<Rightarrow> cell" where
  "cell_inc b c = (case c of NaN \<Rightarrow> NaN | Num v \<Rightarrow> js_mod (v + 1) b)"

definition cell_dec :: "nat \<Rightarrow> cell \<Rightarrow> cell" where
  "cell_dec b c = (case c of NaN \<Rightarrow> NaN | Num v \<Rightarrow> js_mod (v + b - 1) b)"

function decimal :: "nat \<Rightarrow> nat list" where
  "decimal n = (if n < 10 then [48 + n] else decimal (n div 10) @ [48 + n mod 10])"
  by pat_completeness auto
termination
  by (relation "measure id") auto

definition cell_text :: "cell \<Rightarrow> nat list" where
  "cell_text c = (case c of NaN \<Rightarrow> utf16 ''NaN'' | Num v \<Rightarrow> decimal v)"

definition cell_char :: "cell \<Rightarrow> nat" where
  "cell_char c = (case c of NaN \<Rightarrow> 0 | Num v \<Rightarrow> v mod 65536)"

definition parseInt1 :: "nat \<Rightarrow> cell" where
  "parseInt1 u = (if 48 \<le> u \<and> u \<le> 57 then Num (u - 48) else NaN)"

text \<open>
  \<open>fetch\<close> reads \<open>code[ip]\<close>; it is \<open>None\<close> exactly when \<open>ip >= code.length\<close>.
\<close>

definition fetch :: "string \<Rightarrow> nat \<Rightarrow> char option" where
  "fetch code ip = (case drop ip code of [] \<Rightarrow> None | c # _ \<Rightarrow> Some c)"

text \<open>
  The bracket scans.  Forward: while \<open>loopCount > 0\<close>, advance, fail past the end, count
  \<open>[\<close> up and \<open>]\<close> down.  Backward: the same towards the start, with the roles of the
  brackets exchanged.  Both return the position of the matching bracket.
\<close>

function scanForward :: "string \<Rightarrow> nat \<Rightarrow> nat \<Rightarrow> nat option" where
  "scanForward code ip loopCount =
     (if loopCount = 0 then Some ip
      else case fetch code (ip + 1) of
             None \<Rightarrow> None
           | Some c \<Rightarrow>
               scanForward code (ip + 1)
                 (if c = CHR ''['' then loopCount + 1
                  else if c = CHR '']'' then loopCount - 1 else loopCount))"
  by pat_completeness auto
termination
proof (relation "measure (\<lambda>(code, ip, loopCount). length code - ip)")
  show "wf (measure (\<lambda>(code, ip, loopCount). length code - ip))"
    by simp
next
  fix code :: string and ip loopCount :: nat and c :: char
  assume "fetch code (ip + 1) = Some c"
  then have "drop (ip + 1) code \<noteq> []"
    by (auto simp: fetch_def split: list.splits)
  then have "ip + 1 < length code"
    by simp
  then show "((code, ip + 1,
       if c = CHR ''['' then loopCount + 1
       else if c = CHR '']'' then loopCount - 1 else loopCount), code, ip, loopCount)
      \<in> measure (\<lambda>(code, ip, loopCount). length code - ip)"
    by simp
qed

fun scanBackward :: "string \<Rightarrow> nat \<Rightarrow> nat \<Rightarrow> nat option" where
  "scanBackward code ip 0 = Some ip"
| "scanBackward code 0 (Suc loopCount) = None"
| "scanBackward code (Suc ip) (Suc loopCount) =
     (case fetch code ip of
        None \<Rightarrow> scanBackward code ip (Suc loopCount)
      | Some c \<Rightarrow>
          scanBackward code ip
            (if c = CHR '']'' then Suc (Suc loopCount)
             else if c = CHR ''['' then loopCount else Suc loopCount))"

definition step :: "string \<Rightarrow> bf_options \<Rightarrow> char \<Rightarrow> bf_state \<Rightarrow> bf_error + bf_state" where
  "step code opts instruction s =
     (let dp = dataPointer s; ip = instructionPointer s; mem = memory s in
      if instruction = CHR ''>'' then
        Inr (s\<lparr>dataPointer := (dp + 1) mod memorySize, instructionPointer := ip + 1\<rparr>)
      else if instruction = CHR ''<'' then
        Inr (s\<lparr>dataPointer := (dp + memorySize - 1) mod memorySize,
               instructionPointer := ip + 1\<rparr>)
      else if instruction = CHR ''+'' then
        Inr (s\<lparr>memory := mem_set mem dp (cell_inc (bits opts) (mem_get mem dp)),
               instructionPointer := ip + 1\<rparr>)
      else if instruction = CHR ''-'' then
        Inr (s\<lparr>memory := mem_set mem dp (cell_dec (bits opts) (mem_get mem dp)),
               instructionPointer := ip + 1\<rparr>)
      else if instruction = CHR ''.'' then
        Inr (s\<lparr>outputText := outputText s @ cell_text (mem_get mem dp), instructionPointer := ip + 1\<rparr>)
      else if instruction = CHR ''~'' then
        Inr (s\<lparr>outputText := outputText s @ [cell_char (mem_get mem dp)],
               instructionPointer := ip + 1\<rparr>)
      else if instruction = CHR '','' then
        (if inputPointer s < length (input opts) then
           Inr (s\<lparr>memory := mem_set mem dp
                       (if useNumberInputs opts then parseInt1 (input opts ! inputPointer s)
                        else Num (input opts ! inputPointer s)),
                  inputPointer := inputPointer s + 1, instructionPointer := ip + 1\<rparr>)
         else Inr (s\<lparr>memory := mem_set mem dp (Num 0), instructionPointer := ip + 1\<rparr>))
      else if instruction = CHR ''['' then
        (if mem_get mem dp = Num 0 then
           (case scanForward code ip 1 of
              None \<Rightarrow> Inl UnmatchedOpen
            | Some j \<Rightarrow> Inr (s\<lparr>instructionPointer := j + 1\<rparr>))
         else Inr (s\<lparr>instructionPointer := ip + 1\<rparr>))
      else if instruction = CHR '']'' then
        (if mem_get mem dp \<noteq> Num 0 then
           (case scanBackward code ip 1 of
              None \<Rightarrow> Inl UnmatchedClose
            | Some j \<Rightarrow> Inr (s\<lparr>instructionPointer := j + 1\<rparr>))
         else Inr (s\<lparr>instructionPointer := ip + 1\<rparr>))
      else Inr (s\<lparr>instructionPointer := ip + 1\<rparr>))"

text \<open>
  The main loop runs while \<open>instructionPointer < code.length\<close>.  It need not end; \<open>run\<close>
  performs at most \<open>fuel\<close> instructions and is \<open>None\<close> when they do not suffice.
\<close>

fun run :: "nat \<Rightarrow> string \<Rightarrow> bf_options \<Rightarrow> bf_state \<Rightarrow> (bf_error + bf_state) option" where
  "run fuel code opts s =
     (case fetch code (instructionPointer s) of
        None \<Rightarrow> Some (Inr s)
      | Some instruction \<Rightarrow>
          (case fuel of
             0 \<Rightarrow> None
           | Suc fuel' \<Rightarrow>
               (case step code opts instruction s of
                  Inl e \<Rightarrow> Some (Inl e)
                | Inr s' \<Rightarrow> run fuel' code opts s')))"

definition start_state :: bf_state where
  "start_state =
     \<lparr>memory = [], dataPointer = 0, instructionPointer = 0, outputText = [], inputPointer = 0\<rparr>"

definition brainfuck :: "nat \<Rightarrow> string \<Rightarrow> bf_options \<Rightarrow> (bf_error + nat list) option" where
  "brainfuck fuel code opts =
     (case run fuel code opts start_state of
        None \<Rightarrow> None
      | Some (Inl e) \<Rightarrow> Some (Inl e)
      | Some (Inr s) \<Rightarrow> Some (Inr (outputText s)))"

section \<open>Example programs\<close>

text \<open>
  The options of the repository's tests (no input, character input mode, \<open>bits: 8\<close>)
  and the programs on which the compiler and the executor are run below.
\<close>

definition test_options :: bf_options where
  "test_options = \<lparr>input = [], useNumberInputs = False, bits = 8\<rparr>"

definition call_program :: "Token list" where
  "call_program =
     [DeclarationToken ''a'' TypeNumber None,
      AssignToken ''a'' (IndexNumber 0) (LiteralToken (LitNumber 5)),
      FunctionToken ''f'' [ShowToken (LiteralToken (LitNumber 56))],
      CallToken ''f'',
      ShowToken (VariableToken ''a'' (IndexNumber 0))]"

definition inlined_program :: "Token list" where
  "inlined_program =
     [DeclarationToken ''a'' TypeNumber None,
      AssignToken ''a'' (IndexNumber 0) (LiteralToken (LitNumber 5)),
      ShowToken (LiteralToken (LitNumber 56)),
      ShowToken (VariableToken ''a'' (IndexNumber 0))]"

definition unsafe_add_program :: "Token list" where
  "unsafe_add_program =
     [UnsafeBlock 1 [AddToken (LiteralToken (LitNumber 1)), UnsafeShowToken]]"

definition out_of_order_program :: "Token list" where
  "out_of_order_program =
     [UnsafeBlock 2 [AddToken (LiteralToken (LitNumber 1))],
      DeclarationToken ''a'' TypeNumber (Some 2)]"

definition self_assignment_program :: "Token list" where
  "self_assignment_program =
     [DeclarationToken ''a'' TypeNumber None,
      AssignToken ''a'' (IndexNumber 0) (LiteralToken (LitNumber 5)),
      AssignToken ''a'' (IndexNumber 0) (VariableToken ''a'' (IndexNumber 0))]"

definition inside_unsafe_block :: "error + cstate" where
  "inside_unsafe_block =
     compileUnsafe [GotoToken 1, AddToken (LiteralToken (LitNumber 5))]
       (snd (reserveUnsafe 2 (resetState initial_state)))"

definition round_trip_program :: "Token list" where
  "round_trip_program =
     [DeclarationToken ''a'' TypeNumber (Some 1),
      DeclarationToken ''i'' TypeNumber None,
      AssignToken ''i'' (IndexNumber 0) (LiteralToken (LitNumber 0)),
      AssignToken ''a'' (IndexExpr (VariableToken ''i'' (IndexNumber 0)))
        (LiteralToken (LitNumber 9)),
      ShowToken (VariableToken ''a'' (IndexExpr (VariableToken ''i'' (IndexNumber 0))))]"

definition round_trip_code :: string where
  "round_trip_code =
     ''[-]>[-]>[-]+++++++++<[>>+>+<<<-]>>[<<+>>-][-][-]+>[<[-]>-]<[<<<[-]>>[>>>+>+<<<<-]>>>[<<<+>>>-][-]>[<<<<<<+>>>>>>-][-]<<<[-]]>[-]<<[-]<[>>+>+<<<-]>>[<<+>>-][-][-]+>[<[-]>-]<[<<<[>>>>>+>+<<<<<<-]>>>>>[<<<<<+>>>>>-][-]>[<<<<+>>>>-][-]<<<[-]]>[-]<<.''"

definition subtraction_program :: "Token list" where
  "subtraction_program =
     [DeclarationToken ''a'' TypeNumber None,
      DeclarationToken ''b'' TypeNumber None,
      ShowToken (MathToken OpMinus (VariableToken ''a'' (IndexNumber 0))
                   (VariableToken ''b'' (IndexNumber 0)))]"

text \<open>The compiler state after \<open>define a number  define b number\<close>.\<close>

definition two_variables :: cstate where
  "two_variables =
     \<lparr>brainfuckCode = [],
      memoryUsage = [(0, Named ''a'' 0 TypeNumber), (1, Named ''b'' 0 TypeNumber)],
      variables = [(''a'', \<lparr>base = 0, len = 1, vtype = TypeNumber\<rparr>),
                   (''b'', \<lparr>base = 1, len = 1, vtype = TypeNumber\<rparr>)],
      pointerLocation = 0, functionsMap = builtin_functions, unsafePointerLocation = None\<rparr>"

text \<open>
  \<open>define x number  define d number  set d 1  function f { show 1 }  if d { $f }\<close>, and
  its statements before the \<open>if\<close>.
\<close>

definition before_the_if :: "Token list" where
  "before_the_if =
     [DeclarationToken ''x'' TypeNumber None,
      DeclarationToken ''d'' TypeNumber None,
      AssignToken ''d'' (IndexNumber 0) (LiteralToken (LitNumber 1)),
      FunctionToken ''f'' [ShowToken (LiteralToken (LitNumber 1))]]"

definition call_in_if_program :: "Token list" where
  "call_in_if_program =
     before_the_if @ [IfToken (VariableToken ''d'' (IndexNumber 0)) [CallToken ''f'']]"

definition char_show_program :: "Token list" where
  "char_show_program =
     [DeclarationToken ''c'' TypeChar None, ShowToken (VariableToken ''c'' (IndexNumber 0))]"

definition desync_program :: "Token list" where
  "desync_program =
     [DeclarationToken ''c'' TypeNumber None,
      AssignToken ''c'' (IndexNumber 0) (LiteralToken (LitNumber 1)),
      IfToken (VariableToken ''c'' (IndexNumber 0))
        [UnsafeBlock 1 [UnsafeAbstractToken (BfArray [BfRight])]]]"

text \<open>
  The compiler state after \<open>define c number  set c 3\<close>, the statement
  \<open>if c { show c }\<close>, and two tapes on which its code is run: the all-zero tape and the
  tape with 3 in cell 0.
\<close>

definition if_example_state :: cstate where
  "if_example_state =
     \<lparr>brainfuckCode = ''[-]+++'', memoryUsage = [(0, Named ''c'' 0 TypeNumber)],
      variables = [(''c'', \<lparr>base = 0, len = 1, vtype = TypeNumber\<rparr>)], pointerLocation = 0,
      functionsMap = builtin_functions, unsafePointerLocation = None\<rparr>"

definition if_example_body :: "Token list" where
  "if_example_body = [ShowToken (VariableToken ''c'' (IndexNumber 0))]"

definition tape_with_three :: bf_state where
  "tape_with_three =
     \<lparr>memory = [(0, Num 3)], dataPointer = 0, instructionPointer = 0, outputText = [],
      inputPointer = 0\<rparr>"

section \<open>Notions used in the statements\<close>

text \<open>The addresses the allocator records as temporary.\<close>

definition temporaries :: "cstate \<Rightarrow> int set" where
  "temporaries st = {a. map_of (memoryUsage st) a = Some Temporary}"

text \<open>
  The characters of the output: the eight instructions, the character output \<open>~\<close> and the
  memory dump \<open>&\<close> of the builtin function.
\<close>

definition alphabet :: "char set" where
  "alphabet = set ''><+-.,[]~&''"

text \<open>
  A token list has the declared type when every \<open>Abstract\<close> payload in it is an array of
  instruction characters.
\<close>

fun typed_unsafe :: "UnsafeToken \<Rightarrow> bool" where
  "typed_unsafe (UnsafeLoopToken body) = list_all typed_unsafe body"
| "typed_unsafe (UnsafeAbstractToken bf) = (case bf of BfArray ops \<Rightarrow> True | BfString s \<Rightarrow> False)"
| "typed_unsafe (GotoToken loc) = True"
| "typed_unsafe (AddToken amount) = True"
| "typed_unsafe (ReduceToken amount) = True"
| "typed_unsafe UnsafeShowToken = True"

fun typed_token :: "Token \<Rightarrow> bool" where
  "typed_token (LoopToken condition body) = list_all typed_token body"
| "typed_token (IfToken condition body) = list_all typed_token body"
| "typed_token (FunctionToken name body) = list_all typed_token body"
| "typed_token (UnsafeBlock safetySize body) = list_all typed_unsafe body"
| "typed_token (DeclarationToken name ty arr) = True"
| "typed_token (AssignToken name idx v) = True"
| "typed_token (ShowToken v) = True"
| "typed_token (InputToken name) = True"
| "typed_token (CallToken name) = True"
| "typed_token (RemoveToken name) = True"

text \<open>
  The weaker property that the registry keeps: the text of every \<open>Abstract\<close> payload
  stays within the alphabet (the builtin \<open>__dump\<close> has it, with its string payload).
\<close>

fun clean_unsafe :: "UnsafeToken \<Rightarrow> bool" where
  "clean_unsafe (UnsafeLoopToken body) = list_all clean_unsafe body"
| "clean_unsafe (UnsafeAbstractToken bf) = (set (abstract_text bf) \<subseteq> alphabet)"
| "clean_unsafe (GotoToken loc) = True"
| "clean_unsafe (AddToken amount) = True"
| "clean_unsafe (ReduceToken amount) = True"
| "clean_unsafe UnsafeShowToken = True"

fun clean_token :: "Token \<Rightarrow> bool" where
  "clean_token (LoopToken condition body) = list_all clean_token body"
| "clean_token (IfToken condition body) = list_all clean_token body"
| "clean_token (FunctionToken name body) = list_all clean_token body"
| "clean_token (UnsafeBlock safetySize body) = list_all clean_unsafe body"
| "clean_token (DeclarationToken name ty arr) = True"
| "clean_token (AssignToken name idx v) = True"
| "clean_token (ShowToken v) = True"
| "clean_token (InputToken name) = True"
| "clean_token (CallToken name) = True"
| "clean_token (RemoveToken name) = True"

definition registry_clean :: "cstate \<Rightarrow> bool" where
  "registry_clean st = list_all (\<lambda>entry. list_all clean_token (snd entry)) (functionsMap st)"

text \<open>
  \<open>extends st st'\<close>: the later state has the registry of the earlier one, and its output
  is the earlier output followed by characters of the alphabet.
\<close>

definition extends :: "cstate \<Rightarrow> cstate \<Rightarrow> bool" where
  "extends st st' \<longleftrightarrow>
     functionsMap st' = functionsMap st
     \<and> (\<exists>ext. brainfuckCode st' = brainfuckCode st @ ext \<and> set ext \<subseteq> alphabet)"

definition grows :: "cstate \<Rightarrow> cstate \<Rightarrow> bool" where
  "grows st st' \<longleftrightarrow> (\<exists>ext. brainfuckCode st' = brainfuckCode st @ ext \<and> set ext \<subseteq> alphabet)"

text \<open>
  \<open>exec code opts n s\<close>: the state after exactly \<open>n\<close> instructions from \<open>s\<close>, when none of
  them fails and the program does not end before.  \<open>reaches\<close> forgets the count.
\<close>

fun exec :: "string \<Rightarrow> bf_options \<Rightarrow> nat \<Rightarrow> bf_state \<Rightarrow> bf_state option" where
  "exec code opts 0 s = Some s"
| "exec code opts (Suc n) s =
     (case fetch code (instructionPointer s) of
        None \<Rightarrow> None
      | Some instruction \<Rightarrow>
          (case step code opts instruction s of
             Inl e \<Rightarrow> None
           | Inr s' \<Rightarrow> exec code opts n s'))"

definition reaches :: "string \<Rightarrow> bf_options \<Rightarrow> bf_state \<Rightarrow> bf_state \<Rightarrow> bool" where
  "reaches code opts s s' \<longleftrightarrow> (\<exists>n. exec code opts n s = Some s')"

definition shift :: "nat \<Rightarrow> bf_state \<Rightarrow> bf_state" where
  "shift k s = s\<lparr>instructionPointer := instructionPointer s + k\<rparr>"

text \<open>The cell of the tape that a compile-time address designates.\<close>

definition wrap :: "int \<Rightarrow> nat" where
  "wrap a = nat (a mod int memorySize)"

text \<open>
  \<open>passes code d\<close>: the bracket depth after \<open>code\<close>, entered at depth \<open>d\<close>, when the depth
  never reaches zero on the way.  A balanced string returns to the depth it started at.
\<close>

fun passes :: "string \<Rightarrow> nat \<Rightarrow> nat option" where
  "passes [] d = Some d"
| "passes (c # cs) d =
     (let d' = (if c = CHR ''['' then d + 1 else if c = CHR '']'' then d - 1 else d)
      in if d' = 0 then None else passes cs d')"

definition balanced :: "string \<Rightarrow> bool" where
  "balanced code \<longleftrightarrow> passes code 1 = Some 1"

text \<open>The moves \<open>moveTo\<close> emits from \<open>p\<close> to \<open>q\<close>, and the shape of a compiled \<open>if\<close>.\<close>

definition moves :: "int \<Rightarrow> int \<Rightarrow> string" where
  "moves p q =
     (if p < q then replicate (nat (q - p)) CHR ''>'' else replicate (nat (p - q)) CHR ''<'')"

definition if_code :: "int \<Rightarrow> int \<Rightarrow> string \<Rightarrow> int \<Rightarrow> string" where
  "if_code p c body_code p' = moves p c @ ''['' @ body_code @ moves p' c @ ''[-]'' @ '']''"

text \<open>
  \<open>runs code opts s s'\<close>: the program \<open>code\<close>, started at its first instruction in the state
  \<open>s\<close>, runs to its end without failure and ends in the state \<open>s'\<close>.  The instruction
  pointers of \<open>s\<close> and \<open>s'\<close> play no role.
\<close>

definition runs :: "string \<Rightarrow> bf_options \<Rightarrow> bf_state \<Rightarrow> bf_state \<Rightarrow> bool" where
  "runs code opts s s' \<longleftrightarrow>
     reaches code opts (s\<lparr>instructionPointer := 0\<rparr>) (s'\<lparr>instructionPointer := length code\<rparr>)"

text \<open>
  The bracket depth seen by the backward scan: \<open>passes_back\<close> reads a string from its end,
  so it is applied to the reversed string.
\<close>

fun passes_back :: "string \<Rightarrow> nat \<Rightarrow> nat option" where
  "passes_back [] d = Some d"
| "passes_back (c # cs) d =
     (let d' = (if c = CHR '']'' then d + 1 else if c = CHR ''['' then d - 1 else d)
      in if d' = 0 then None else passes_back cs d')"

text \<open>
  A loop around a body, and the bodies of the two counting loops of the compiler: the drain
  of the cell \<open>k\<close> into the cell \<open>t\<close>, and the drain of \<open>k\<close> into both \<open>t1\<close> and \<open>t2\<close> with
  which \<open>copy\<close> starts.  \<open>drain_inv\<close> and \<open>copy_inv\<close> describe the tape when the counter,
  which started at \<open>X\<close>, has come down to \<open>x\<close>.
\<close>

definition loop_code :: "string \<Rightarrow> string" where
  "loop_code B = CHR ''['' # B @ '']''"

definition drain_body :: "int \<Rightarrow> int \<Rightarrow> string" where
  "drain_body k t = moves k t @ ''+'' @ moves t k @ ''-''"

definition drain_inv ::
  "bf_options \<Rightarrow> bf_state \<Rightarrow> int \<Rightarrow> int \<Rightarrow> nat \<Rightarrow> nat \<Rightarrow> nat \<Rightarrow> bf_state \<Rightarrow> bool" where
  "drain_inv opts s0 k t X y x s \<longleftrightarrow>
     dataPointer s = wrap k \<and> outputText s = outputText s0 \<and> inputPointer s = inputPointer s0
     \<and> x \<le> X
     \<and> mem_get (memory s)
         = (mem_get (memory s0))(wrap k := Num x, wrap t := Num ((y + (X - x)) mod bits opts))"

definition copy_body :: "int \<Rightarrow> int \<Rightarrow> int \<Rightarrow> string" where
  "copy_body k t1 t2 = moves k t1 @ ''+'' @ moves t1 t2 @ ''+'' @ moves t2 k @ ''-''"

definition copy_inv ::
  "bf_options \<Rightarrow> bf_state \<Rightarrow> int \<Rightarrow> int \<Rightarrow> int \<Rightarrow> nat \<Rightarrow> nat \<Rightarrow> nat \<Rightarrow> nat \<Rightarrow> bf_state \<Rightarrow> bool"
  where
  "copy_inv opts s0 k t1 t2 X y1 y2 x s \<longleftrightarrow>
     dataPointer s = wrap k \<and> outputText s = outputText s0 \<and> inputPointer s = inputPointer s0
     \<and> x \<le> X
     \<and> mem_get (memory s)
         = (mem_get (memory s0))(wrap k := Num x,
              wrap t1 := Num ((y1 + (X - x)) mod bits opts),
              wrap t2 := Num ((y2 + (X - x)) mod bits opts))"

text \<open>
  The string that \<open>copy\<close> emits, as a function of the tracked pointer, the source cell and
  the two cells it allocates.
\<close>

definition copy_code :: "int \<Rightarrow> int \<Rightarrow> int \<Rightarrow> int \<Rightarrow> string" where
  "copy_code p cell location1 location2 =
     moves p cell @ loop_code (copy_body cell location1 location2)
     @ moves cell location1 @ loop_code (drain_body location1 cell) @ ''[-]''"

text \<open>
  An address is live when the allocator map records it and not as free.  The map is dense
  when its keys are \<open>0, \<dots>, n - 1\<close> in this order, as they are as long as no unsafe block
  has deleted entries.  \<open>tape_ok\<close>: the tape agrees with the compiler state --- the pointer
  is where the compiler tracks it, every cell holds a number below the modulus, and every
  cell that is not live holds zero.
\<close>

definition live :: "cstate \<Rightarrow> int \<Rightarrow> bool" where
  "live st a \<longleftrightarrow> (\<exists>u. map_of (memoryUsage st) a = Some u \<and> u \<noteq> Freed)"

definition dense :: "(int \<times> usage) list \<Rightarrow> bool" where
  "dense m \<longleftrightarrow> map fst m = map int [0..<length m]"

definition tape_ok :: "bf_options \<Rightarrow> cstate \<Rightarrow> bf_state \<Rightarrow> bool" where
  "tape_ok opts st s \<longleftrightarrow>
     dense (memoryUsage st) \<and> length (memoryUsage st) \<le> memorySize
     \<and> dataPointer s = wrap (pointerLocation st)
     \<and> (\<forall>a. \<exists>v<bits opts. mem_get (memory s) a = Num v)
     \<and> (\<forall>a. \<not> live st (int a) \<longrightarrow> mem_get (memory s) a = Num 0)"

text \<open>
  The two cells in which \<open>subtract\<close> (of either revision) receives the copies of its
  operands.
\<close>

definition subtract_copies :: "int \<Rightarrow> int \<Rightarrow> cstate \<Rightarrow> int \<times> int" where
  "subtract_copies a b st =
     (let targetLocation = findEmptyLocation st;
          st1 = setUsage targetLocation Temporary st;
          (copiedA, st2) = copy a st1;
          (copiedB, st3) = copy b st2
      in (copiedA, copiedB))"

text \<open>
  \<open>track code p stk\<close> follows the moves and brackets of \<open>code\<close> from the pointer \<open>p\<close>: \<open>[\<close>
  pushes the pointer, \<open>]\<close> pops it and fails unless the pointer is the one pushed, so that
  a loop ends on the cell on which it started.  The result is the pointer and the stack
  after \<open>code\<close>.  \<open>on_track\<close>: the tape pointer of a state is the one \<open>track\<close> gives for the
  code before its instruction pointer.
\<close>

fun track :: "string \<Rightarrow> int \<Rightarrow> int list \<Rightarrow> (int \<times> int list) option" where
  "track [] p stk = Some (p, stk)"
| "track (c # cs) p stk =
     (if c = CHR ''>'' then track cs (p + 1) stk
      else if c = CHR ''<'' then track cs (p - 1) stk
      else if c = CHR ''['' then track cs p (p # stk)
      else if c = CHR '']'' then
        (case stk of [] \<Rightarrow> None | q # stk' \<Rightarrow> if q = p then track cs p stk' else None)
      else track cs p stk)"

definition on_track :: "string \<Rightarrow> int \<Rightarrow> bf_state \<Rightarrow> bool" where
  "on_track code p s \<longleftrightarrow>
     instructionPointer s \<le> length code
     \<and> (\<exists>q stk. track (take (instructionPointer s) code) p [] = Some (q, stk)
           \<and> dataPointer s = wrap q)"

text \<open>
  \<open>tracks st stk st' stk'\<close>: the compiler went from \<open>st\<close> to \<open>st'\<close> by appending code that
  \<open>track\<close> takes from the tracked pointer of \<open>st\<close> to that of \<open>st'\<close>.  \<open>keeps\<close>: the unsafe
  pointer is unchanged.
\<close>

definition tracks :: "cstate \<Rightarrow> int list \<Rightarrow> cstate \<Rightarrow> int list \<Rightarrow> bool" where
  "tracks st stk st' stk' \<longleftrightarrow>
     (\<exists>ext. brainfuckCode st' = brainfuckCode st @ ext
        \<and> track ext (pointerLocation st) stk = Some (pointerLocation st', stk'))"

definition keeps :: "cstate \<Rightarrow> cstate \<Rightarrow> bool" where
  "keeps st st' \<longleftrightarrow> unsafePointerLocation st' = unsafePointerLocation st"

text \<open>
  The tokens whose compilation keeps the tracked pointer exact: no \<open>abstract\<close> escape whose
  text moves the pointer on balance or ends a loop on another cell than it started on, no
  loop of an unsafe block whose \<open>goto\<close> distances (\<open>goto_shift\<close>) do not add up to zero, and
  no call.
\<close>

fun goto_shift :: "UnsafeToken \<Rightarrow> int" where
  "goto_shift (GotoToken loc) = loc"
| "goto_shift (UnsafeLoopToken body) = 0"
| "goto_shift (UnsafeAbstractToken bf) = 0"
| "goto_shift (AddToken amount) = 0"
| "goto_shift (ReduceToken amount) = 0"
| "goto_shift UnsafeShowToken = 0"

fun tracked_unsafe :: "UnsafeToken \<Rightarrow> bool" where
  "tracked_unsafe (UnsafeLoopToken body) =
     (list_all tracked_unsafe body \<and> sum_list (map goto_shift body) = 0)"
| "tracked_unsafe (UnsafeAbstractToken bf) = (track (abstract_text bf) 0 [] = Some (0, []))"
| "tracked_unsafe (GotoToken loc) = True"
| "tracked_unsafe (AddToken amount) = True"
| "tracked_unsafe (ReduceToken amount) = True"
| "tracked_unsafe UnsafeShowToken = True"

fun tracked_token :: "Token \<Rightarrow> bool" where
  "tracked_token (LoopToken condition body) = list_all tracked_token body"
| "tracked_token (IfToken condition body) = list_all tracked_token body"
| "tracked_token (FunctionToken name body) = True"
| "tracked_token (UnsafeBlock safetySize body) = list_all tracked_unsafe body"
| "tracked_token (DeclarationToken name ty arr) = True"
| "tracked_token (AssignToken name idx v) = True"
| "tracked_token (ShowToken v) = True"
| "tracked_token (InputToken name) = True"
| "tracked_token (CallToken name) = False"
| "tracked_token (RemoveToken name) = True"

text \<open>The code the compiler appended between two states.\<close>

definition emitted :: "cstate \<Rightarrow> cstate \<Rightarrow> string" where
  "emitted st st' = drop (length (brainfuckCode st)) (brainfuckCode st')"

section \<open>Evaluation on concrete programs\<close>

text \<open>
  The recursive equations of the loops are unfolded only on request; the collections
  below are what the simplifier needs to run the compiler and the executor on a concrete
  input.
\<close>

declare run.simps [simp del]
declare scanForward.simps [simp del]
declare decimal.simps [simp del]
declare findContiguousFreeRegion_from.simps [simp del]

lemma replicate_numeral_eval: "replicate (numeral k) x = x # replicate (pred_numeral k) x"
  by (simp add: numeral_eq_Suc)

lemmas compile_eval =
  compile_def initial_state_def resetState_def builtin_functions_def declareScalar_def
  declareArray_def findEmptyLocation_def setUsage_def assignStatic_def steps_def moveTo_def
  emit_def clearCell_def findVariableLocation_def copy_def add_def subtract_def drainInto_def
  showsAsChar_def usageType_def Let_def lookupVariable_def getDynamic_round_def
  getDynamic_scan_def setDynamic_round_def decrementTimes_def setVariableAtDynamicIndex_def
  findContiguousFreeRegion_def findContiguousFreeRegion_from.simps replicate_numeral_eval
  conditionCell_def upt_rec reserveUnsafe_def releaseUnsafe_def unsafeDrain_def
  unsafePointerOrZero_def

lemmas run_eval =
  run.simps fetch_def step_def scanForward.simps mem_get_def mem_set_def cell_inc_def
  cell_dec_def js_mod_def memorySize_def cell_text_def cell_char_def decimal.simps
  start_state_def brainfuck_def utf16_def Let_def parseInt1_def

section \<open>Input: a variable at address 0\<close>

text \<open>
  C7.  \<open>define x number\<close> binds \<open>x\<close> to address 0, the first address the allocator hands
  out.  \<open>input x\<close> then finds the binding, but the test \<open>!entryLoc\<close> treats the address 0
  as a missing binding, and the compilation stops with the undeclared-variable error
  although \<open>x\<close> is declared.
\<close>

theorem input_of_variable_at_address_zero_is_rejected:
  "compile fuel [DeclarationToken ''x'' TypeNumber None, InputToken ''x'']
     = Inl (VariableNotDeclared ''x'')"
  by (simp add: compile_eval cong: let_weak_cong prod.case_cong_weak)

lemma input_of_variable_at_other_address_is_compiled:
  "compile fuel [DeclarationToken ''y'' TypeNumber None, DeclarationToken ''x'' TypeNumber None,
                 InputToken ''x''] = Inr ''>,''"
  by (simp add: compile_eval cong: let_weak_cong prod.case_cong_weak)

section \<open>Calls reset the compiler state\<close>

text \<open>
  C2.  The call \<open>$f\<close> compiles the body of \<open>f\<close> with \<open>reset = true\<close>: the allocator map,
  the variable table and the tracked pointer of the caller are discarded.  The variable
  \<open>a\<close> declared before the call is unknown after it, so the program with the call does
  not compile, while the program with \<open>show 56\<close> written at the call site does.
\<close>

theorem call_discards_the_callers_state:
  "compile 1 call_program = Inl (VariableNotDeclared ''a'')
   \<and> compile 1 inlined_program
       = Inr (''[-]+++++>[-]'' @ replicate 56 CHR ''+'' @ ''.<.'')"
  by (simp add: compile_eval call_program_def inlined_program_def
      cong: let_weak_cong prod.case_cong_weak)

lemma call_of_unregistered_function_is_an_error:
  "compile fuel [CallToken ''g''] = Inl (FunctionNotDefined ''g'')"
  by (cases fuel) (simp_all add: compile_eval)

section \<open>The unsafe region is marked free\<close>

text \<open>
  C3.  \<open>unsafe 1 { add 1 show }\<close> reserves the region that consists of address 0 and
  marks it \<open>null\<close>, the marker of a freed cell.  While the region is reserved,
  \<open>findEmptyLocation\<close> returns address 0, inside the region: the literal \<open>1\<close> of
  \<open>add 1\<close> is materialized in the reserved cell itself, and the cell shows 2 after
  \<open>add 1\<close>.
\<close>

theorem allocator_hands_out_the_reserved_cell:
  "fst (reserveUnsafe 1 (resetState initial_state)) = 0
   \<and> findEmptyLocation (snd (reserveUnsafe 1 (resetState initial_state))) = 0
   \<and> compile 0 unsafe_add_program = Inr ''[-]+[>+>+<<-]>[<+>-][-]>[<<+>>-]<<.[-]''
   \<and> brainfuck 100 ''[-]+[>+>+<<-]>[<+>-][-]>[<<+>>-]<<.[-]'' test_options
       = Some (Inr (utf16 ''2''))"
  by (simp add: compile_eval run_eval unsafe_add_program_def test_options_def
      cong: let_weak_cong prod.case_cong_weak)

section \<open>The single-cell query follows insertion order\<close>

text \<open>
  C8.  After \<open>unsafe 2 { add 1 }\<close> and \<open>define a 2 number\<close> the allocator map holds the
  addresses in the order 2, 0, 1: the unsafe block deleted the entries 0 and 1, and the
  array took them again.  No address is free, the highest address touched is 2, and
  \<open>findEmptyLocation\<close> returns 2, the address of a temporary cell, since it returns one
  past the key of the last entry of the map, not one past the highest key.
\<close>

theorem findEmptyLocation_returns_an_occupied_address:
  "map_sum id memoryUsage (compile_tokens 0 out_of_order_program (resetState initial_state))
     = Inr [(2, Temporary), (0, Named ''a'' 0 TypeNumber), (1, Named ''a'' 1 TypeNumber)]
   \<and> map_sum id findEmptyLocation
         (compile_tokens 0 out_of_order_program (resetState initial_state)) = Inr 2"
  by (simp add: compile_eval out_of_order_program_def
      cong: let_weak_cong prod.case_cong_weak)

section \<open>Assignment of a variable to itself\<close>

text \<open>
  C5.  \<open>set a a\<close>: the Assign branch clears the target cell before it copies the source.
  With \<open>a\<close> as target and source the value 5 of \<open>a\<close> is lost: after \<open>set a 5\<close> the cell of
  \<open>a\<close> (address 0) holds 5, after \<open>set a a\<close> it holds 0.
\<close>

theorem self_assignment_clears_the_variable:
  "compile 0 self_assignment_program = Inr ''[-]+++++[-][>+>+<<-]>[<+>-][-]>[<<+>>-]''
   \<and> run 100 ''[-]+++++'' test_options start_state
       = Some (Inr \<lparr>memory = [(0, Num 5)], dataPointer = 0, instructionPointer = 8,
                     outputText = [], inputPointer = 0\<rparr>)
   \<and> run 100 ''[-]+++++[-][>+>+<<-]>[<+>-][-]>[<<+>>-]'' test_options start_state
       = Some (Inr \<lparr>memory = [(0, Num 0)], dataPointer = 2, instructionPointer = 39,
                     outputText = [], inputPointer = 0\<rparr>)"
  by (simp add: compile_eval run_eval self_assignment_program_def test_options_def
      cong: let_weak_cong prod.case_cong_weak)

section \<open>A free cell that is not zero\<close>

text \<open>
  C10.  Inside \<open>unsafe 2 { goto 1 add 5 }\<close>, after \<open>add 5\<close> has been compiled: the
  allocator records address 1 as free (\<open>null\<close>), and the instructions emitted so far,
  run from the all-zero tape, leave 5 in cell 1.  The cell is the one the unsafe pointer
  designates; \<open>copy\<close> used it as its scratch cell and freed it, and the drain of
  \<open>add 5\<close> then wrote to it.
\<close>

theorem free_cell_holds_a_value:
  "inside_unsafe_block
     = Inr \<lparr>brainfuckCode = ''><[-]+++++[>+>+<<-]>[<+>-][-]>[<+>-]'',
            memoryUsage = [(0, Temporary), (1, Freed), (2, Temporary)],
            variables = [], pointerLocation = 2, functionsMap = builtin_functions,
            unsafePointerLocation = Some 1\<rparr>
   \<and> run 1000 ''><[-]+++++[>+>+<<-]>[<+>-][-]>[<+>-]'' test_options start_state
       = Some (Inr \<lparr>memory = [(0, Num 5), (1, Num 5), (2, Num 0)], dataPointer = 2,
                     instructionPointer = 36, outputText = [], inputPointer = 0\<rparr>)"
  by (simp add: inside_unsafe_block_def compile_eval run_eval test_options_def
      cong: let_weak_cong prod.case_cong_weak)

section \<open>Dynamic indexing on the executor\<close>

text \<open>
  C1.  \<open>define a 1 number  define i number  set i 0  set a[i] 9  show a[i]\<close>, run with
  the options of the repository's tests (\<open>bits: 8\<close>): the output is 1, not 9.  The
  executor reduces a cell modulo \<open>bits\<close> (8) on every \<open>+\<close> and \<open>-\<close>, not modulo
  \<open>2 ** bits\<close>.
\<close>

theorem round_trip_of_nine_shows_one:
  "compile 0 round_trip_program = Inr round_trip_code
   \<and> brainfuck 1000 round_trip_code test_options = Some (Inr (utf16 ''1''))"
  by (simp add: compile_eval run_eval round_trip_program_def round_trip_code_def
      test_options_def cong: let_weak_cong prod.case_cong_weak)
section \<open>Temporary cells\<close>

lemma map_of_map_set: "map_of (map_set k v m) = (map_of m)(k \<mapsto> v)"
  by (induction m) auto

lemma temporaries_emit [simp]: "temporaries (emit s st) = temporaries st"
  by (simp add: temporaries_def emit_def)

lemma temporaries_moveTo [simp]: "temporaries (moveTo l st) = temporaries st"
  by (simp add: temporaries_def moveTo_def emit_def Let_def)

lemma temporaries_clearCell [simp]: "temporaries (clearCell st) = temporaries st"
  by (simp add: clearCell_def)

lemma temporaries_setUsage_Temporary [simp]:
  "temporaries (setUsage l Temporary st) = insert l (temporaries st)"
  by (auto simp: temporaries_def setUsage_def map_of_map_set)

lemma temporaries_setUsage_Freed [simp]:
  "temporaries (setUsage l Freed st) = temporaries st - {l}"
  by (auto simp: temporaries_def setUsage_def map_of_map_set)

text \<open>
  C6, as the claim states it, fails on the later revision of the compiler
  (\<open>src/unnamed/part_001\<close>): after \<open>define a number  define b number  show (math a - b)\<close>
  the only temporary cell is the result cell 2; the cells 3, 4 and 5 that the two copies
  used are free again.
\<close>

theorem subtraction_leaves_one_temporary_cell:
  "map_sum id memoryUsage (compile_tokens 0 subtraction_program (resetState initial_state))
     = Inr [(0, Named ''a'' 0 TypeNumber), (1, Named ''b'' 0 TypeNumber), (2, Temporary),
            (3, Freed), (4, Freed), (5, Freed)]"
  by (simp add: compile_eval subtraction_program_def cong: let_weak_cong prod.case_cong_weak)

section \<open>The compiler only appends, and only characters of the alphabet\<close>

lemma extends_refl [simp]: "extends st st"
  by (simp add: extends_def)

lemma extends_trans: "extends a b \<Longrightarrow> extends b c \<Longrightarrow> extends a c"
  by (auto simp: extends_def)

lemma extends_emit: "set s \<subseteq> alphabet \<Longrightarrow> extends st st1 \<Longrightarrow> extends st (emit s st1)"
  by (auto simp: extends_def emit_def)

lemma extends_moveTo: "extends st st1 \<Longrightarrow> extends st (moveTo l st1)"
  by (auto simp: extends_def emit_def moveTo_def Let_def alphabet_def)

lemma extends_setUsage: "extends st st1 \<Longrightarrow> extends st (setUsage l u st1)"
  by (auto simp: extends_def setUsage_def)

lemma extends_clearCell: "extends st st1 \<Longrightarrow> extends st (clearCell st1)"
  by (simp add: clearCell_def extends_emit alphabet_def)

lemma extends_setValue: "extends st st1 \<Longrightarrow> extends st (setValue v st1)"
  by (cases v) (auto simp: Let_def alphabet_def intro!: extends_emit extends_clearCell)

lemmas extends_basic = extends_emit extends_moveTo extends_setUsage extends_clearCell
  extends_setValue

lemma extends_copy: "extends st st1 \<Longrightarrow> extends st (snd (copy c st1))"
  by (auto simp: copy_def Let_def steps_def alphabet_def intro!: extends_basic)

lemma extends_add: "extends st st1 \<Longrightarrow> extends st (snd (add a b st1))"
  by (auto simp: add_def Let_def steps_def alphabet_def split_beta intro!: extends_basic extends_copy)

lemma extends_subtract: "extends st st1 \<Longrightarrow> extends st (snd (subtract a b st1))"
  by (auto simp: subtract_def Let_def steps_def alphabet_def split_beta intro!: extends_basic extends_copy)

lemma extends_drainInto: "extends st st1 \<Longrightarrow> extends st (drainInto a b st1)"
  by (auto simp: drainInto_def steps_def alphabet_def intro!: extends_basic)

lemma extends_decrementTimes: "extends st st1 \<Longrightarrow> extends st (decrementTimes c i st1)"
  by (auto simp: decrementTimes_def alphabet_def intro!: extends_basic)

lemma extends_getDynamic_round:
  "extends st st1 \<Longrightarrow> extends st (getDynamic_round b idx r i st1)"
  by (auto simp: getDynamic_round_def Let_def steps_def alphabet_def split_beta
      intro!: extends_basic extends_copy extends_decrementTimes)

lemma extends_setDynamic_round:
  "extends st st1 \<Longrightarrow> extends st (setDynamic_round b idx v i st1)"
  by (auto simp: setDynamic_round_def Let_def steps_def alphabet_def split_beta
      intro!: extends_basic extends_copy extends_decrementTimes)

lemma extends_fold:
  assumes "\<And>x s. extends st s \<Longrightarrow> extends st (f x s)"
  shows "extends st st1 \<Longrightarrow> extends st (fold f xs st1)"
  by (induction xs arbitrary: st1) (auto intro: assms)


lemma extends_getDynamic_scan:
  "extends st st1 \<Longrightarrow> extends st (snd (getDynamic_scan b n idx st1))"
  by (auto simp: getDynamic_scan_def Let_def
      intro!: extends_fold extends_getDynamic_round extends_setUsage)

lemma extends_evalValue:
  "evalValue v st1 = Inr (l, st2) \<Longrightarrow> extends st1 st2"
  "getVariableValueAtDynamicIndex name e st1 = Inr (l, st2) \<Longrightarrow> extends st1 st2"
proof (induction v st1 and name e st1 arbitrary: l st2 and l st2
    rule: evalValue_getVariableValueAtDynamicIndex.induct)
  case (1 v st)
  then show ?case
    by (auto simp: Let_def steps_def intro!: extends_basic)
next
  case (2 name idx st)
  then show ?case
    by (auto split: option.splits)
next
  case (3 name idx st)
  then show ?case
    by simp
next
  case (4 left right st)
  from "4.prems" obtain a sa b sb where
    l: "evalValue left st = Inr (a, sa)" and r: "evalValue right sa = Inr (b, sb)"
    and res: "add a b sb = (l, st2)"
    by (auto split: sum.splits prod.splits)
  have "extends st sa"
    using "4.IH"(1) l by blast
  moreover have "extends sa sb"
    using "4.IH"(2) l r by blast
  moreover have "extends sb st2"
    using extends_add [of sb sb a b] res by simp
  ultimately show ?case
    by (blast intro: extends_trans)
next
  case (5 left right st)
  from "5.prems" obtain a sa b sb where
    l: "evalValue left st = Inr (a, sa)" and r: "evalValue right sa = Inr (b, sb)"
    and res: "subtract a b sb = (l, st2)"
    by (auto split: sum.splits prod.splits)
  have "extends st sa"
    using "5.IH"(1) l by blast
  moreover have "extends sa sb"
    using "5.IH"(2) l r by blast
  moreover have "extends sb st2"
    using extends_subtract [of sb sb a b] res by simp
  ultimately show ?case
    by (blast intro: extends_trans)
next
  case (6 left right st)
  then show ?case by simp
next
  case (7 left right st)
  then show ?case by simp
next
  case (8 st)
  then show ?case
    by (auto simp: Let_def steps_def alphabet_def intro!: extends_basic)
next
  case (9 name indexExpr st)
  from "9.prems" obtain info idxCell s1 where
    e: "evalValue indexExpr st = Inr (idxCell, s1)"
    and res: "getDynamic_scan (base info) (len info) idxCell s1 = (l, st2)"
    and info: "lookupVariable name st = Some info"
    by (auto split: option.splits sum.splits prod.splits)
  have "extends st s1"
    using "9.IH" info e by blast
  moreover have "extends s1 st2"
    using extends_getDynamic_scan [of s1 s1 "base info" "len info" idxCell] res by simp
  ultimately show ?case
    by (blast intro: extends_trans)
qed


lemma extends_setVariableAtDynamicIndex:
  assumes "setVariableAtDynamicIndex name e v st = Inr st'"
  shows "extends st st'"
proof -
  from assms obtain info idxCell s1 valueCell s2 where
    e1: "evalValue e st = Inr (idxCell, s1)" and e2: "evalValue v s1 = Inr (valueCell, s2)"
    and info: "lookupVariable name st = Some info"
    by (auto simp: setVariableAtDynamicIndex_def split: option.splits sum.splits prod.splits)
  define s3 where
    "s3 = fold (\<lambda>i. setDynamic_round (base info) idxCell valueCell (int i)) [0..<nat (len info)] s2"
  have "extends st s1"
    using extends_evalValue(1) e1 by blast
  moreover have "extends s1 s2"
    using extends_evalValue(1) e2 by blast
  moreover have "extends s2 s3"
    unfolding s3_def by (intro extends_fold extends_setDynamic_round) simp_all
  moreover have "extends s3 st'"
    using assms e1 e2 info
    by (auto simp: setVariableAtDynamicIndex_def s3_def Let_def steps_def
        split: if_splits intro!: extends_basic)
  ultimately show ?thesis
    by (blast intro: extends_trans)
qed

lemma extends_assignStatic:
  assumes "assignStatic target v st = Inr st'"
  shows "extends st st'"
proof (cases v)
  case (LiteralToken l)
  then show ?thesis
    using assms by (auto simp: assignStatic_def steps_def intro!: extends_basic)
next
  case (VariableToken name idx)
  let ?s1 = "steps [moveTo target, clearCell] st"
  have a: "extends st ?s1"
    by (auto simp: steps_def intro!: extends_basic)
  define r where
    "r = (case idx of
            IndexNumber k \<Rightarrow>
              (case findVariableLocation name k ?s1 of
                 None \<Rightarrow> Inl (VariableNotDeclared name)
               | Some src \<Rightarrow> Inr (src, ?s1))
          | IndexExpr e \<Rightarrow> evalValue (VariableToken name idx) ?s1)"
  from assms VariableToken have
    "(case r of
        Inl e \<Rightarrow> Inl e
      | Inr (sourceLocation, st2) \<Rightarrow>
          (let (copyLocation, st3) = copy sourceLocation (moveTo sourceLocation st2)
           in Inr (drainInto copyLocation target st3))) = Inr st'"
    by (simp add: assignStatic_def r_def Let_def)
  then obtain src s2 where
    src: "r = Inr (src, s2)"
    and res: "st' = drainInto (fst (copy src (moveTo src s2))) target
                      (snd (copy src (moveTo src s2)))"
    by (cases r) (auto simp: split_beta Let_def)
  have b: "extends ?s1 s2"
    using src extends_evalValue(1) [of "VariableToken name idx" ?s1 src s2]
    by (cases idx) (auto simp: r_def split: option.splits)
  have c: "extends s2 st'"
    unfolding res by (intro extends_drainInto extends_copy extends_moveTo) simp
  show ?thesis
    using a b c by (blast intro: extends_trans)
next
  case (MathToken opr l r)
  from assms MathToken obtain resultCell s1 where
    e: "evalValue v st = Inr (resultCell, s1)"
    and res: "st' = drainInto resultCell target (steps [moveTo target, clearCell] s1)"
    by (auto simp: assignStatic_def split: sum.splits prod.splits)
  have "extends st s1"
    using extends_evalValue(1) e by blast
  moreover have "extends s1 st'"
    unfolding res by (auto simp: steps_def intro!: extends_drainInto extends_basic)
  ultimately show ?thesis
    by (blast intro: extends_trans)
next
  case MaxToken
  then show ?thesis
    using assms by (auto simp: assignStatic_def steps_def alphabet_def intro!: extends_basic)
qed

lemma extends_declareScalar: "extends st (declareScalar name ty st)"
  by (auto simp: declareScalar_def Let_def extends_def setUsage_def)

lemma extends_variables_update:
  "extends st st1 \<Longrightarrow> extends st (st1\<lparr>variables := vs\<rparr>)"
  by (simp add: extends_def)

lemma extends_declareArray: "extends st (declareArray name ty n st)"
  by (auto simp: declareArray_def Let_def steps_def
      intro!: extends_variables_update extends_fold extends_basic)

lemma extends_unsafeDrain:
  assumes "unsafeDrain sign amount st = Inr st'" and "set sign \<subseteq> alphabet"
  shows "extends st st'"
proof -
  from assms obtain amountCell s1 up where
    e: "evalValue amount st = Inr (amountCell, s1)"
    and res: "st' = steps [moveTo (fst (copy amountCell s1)), emit ''['', moveTo up, emit sign,
                           moveTo (fst (copy amountCell s1)), emit ''-'', emit '']'']
                      (snd (copy amountCell s1))"
    by (auto simp: unsafeDrain_def Let_def split_beta split: sum.splits prod.splits option.splits)
  have "extends st s1"
    using extends_evalValue(1) e by blast
  moreover have "extends s1 st'"
    unfolding res using assms(2)
    by (auto simp: steps_def alphabet_def intro!: extends_basic extends_copy)
  ultimately show ?thesis
    by (blast intro: extends_trans)
qed

lemma extends_unsafePointer_update:
  "extends st st1 \<Longrightarrow> extends st (st1\<lparr>unsafePointerLocation := p\<rparr>)"
  by (simp add: extends_def)

lemma extends_compileUnsafe:
  "compileUnsafe tokens st = Inr st' \<Longrightarrow> list_all clean_unsafe tokens \<Longrightarrow> extends st st'"
  "compileUnsafeToken token st = Inr st' \<Longrightarrow> clean_unsafe token \<Longrightarrow> extends st st'"
proof (induction tokens st and token st arbitrary: st' and st'
    rule: compileUnsafe_compileUnsafeToken.induct)
  case (1 st)
  then show ?case by simp
next
  case (2 token tokens st)
  from "2.prems" obtain s1 where
    a: "compileUnsafeToken token st = Inr s1" and b: "compileUnsafe tokens s1 = Inr st'"
    by (auto split: sum.splits)
  have "extends st s1"
    using "2.IH"(1) a "2.prems"(2) by simp
  moreover have "extends s1 st'"
    using "2.IH"(2) a b "2.prems"(2) by simp
  ultimately show ?case
    by (blast intro: extends_trans)
next
  case (3 amount st)
  then show ?case
    using extends_unsafeDrain [of "''+''" amount st st'] by (simp add: alphabet_def)
next
  case (4 amount st)
  then show ?case
    using extends_unsafeDrain [of "''-''" amount st st'] by (simp add: alphabet_def)
next
  case (5 loc st)
  then show ?case
    by (auto simp: Let_def split: option.splits
        intro!: extends_unsafePointer_update extends_basic)
next
  case (6 st)
  then show ?case
    by (auto simp: steps_def alphabet_def split: option.splits intro!: extends_basic)
next
  case (7 body st)
  from "7.prems" obtain up s1 where
    up: "unsafePointerLocation st = Some up"
    and b: "compileUnsafe body (steps [moveTo up, emit ''[''] st) = Inr s1"
    and res: "st' = steps [moveTo (unsafePointerOrZero s1), emit '']''] s1"
    by (auto split: option.splits sum.splits)
  have "extends st (steps [moveTo up, emit ''[''] st)"
    by (auto simp: steps_def alphabet_def intro!: extends_basic)
  moreover have "extends (steps [moveTo up, emit ''[''] st) s1"
    using "7.IH" up b "7.prems"(2) by simp
  moreover have "extends s1 st'"
    unfolding res by (auto simp: steps_def alphabet_def intro!: extends_basic)
  ultimately show ?case
    by (blast intro: extends_trans)
next
  case (8 bf st)
  then show ?case
    by (auto intro!: extends_basic)
qed

lemma extends_reserveUnsafe: "extends st (snd (reserveUnsafe n st))"
  by (auto simp: reserveUnsafe_def Let_def
      intro!: extends_moveTo extends_unsafePointer_update extends_fold extends_setUsage)

lemma extends_memoryUsage_update:
  "extends st st1 \<Longrightarrow> extends st (st1\<lparr>memoryUsage := m\<rparr>)"
  by (simp add: extends_def)

lemma extends_releaseUnsafe: "extends st (releaseUnsafe start n st)"
  by (auto simp: releaseUnsafe_def Let_def
      intro!: extends_unsafePointer_update extends_fold extends_basic extends_memoryUsage_update)

lemma extends_conditionCell:
  "conditionCell c st = Inr (l, st') \<Longrightarrow> extends st st'"
  using extends_evalValue(1) [of c st l st']
  by (auto simp: conditionCell_def split: ValueToken.splits index.splits option.splits)


lemma grows_refl [simp]: "grows st st"
  by (simp add: grows_def)

lemma grows_trans: "grows a b \<Longrightarrow> grows b c \<Longrightarrow> grows a c"
  by (auto simp: grows_def)

lemma extends_imp_grows: "extends st st' \<Longrightarrow> grows st st'"
  by (auto simp: extends_def grows_def)

lemma extends_imp_registry_clean: "extends st st' \<Longrightarrow> registry_clean st \<Longrightarrow> registry_clean st'"
  by (simp add: extends_def registry_clean_def)

lemma list_all_map_set: "list_all P m \<Longrightarrow> P (k, v) \<Longrightarrow> list_all P (map_set k v m)"
  by (induction m) auto

lemma registry_clean_lookup:
  "registry_clean st \<Longrightarrow> map_of (functionsMap st) name = Some body \<Longrightarrow> list_all clean_token body"
  by (auto simp: registry_clean_def list_all_iff dest!: map_of_SomeD)

lemma compile_invariant:
  "compile_tokens fuel code st = Inr st' \<Longrightarrow> list_all clean_token code \<Longrightarrow> registry_clean st
     \<Longrightarrow> registry_clean st' \<and> grows st st'"
  "compile_token fuel token st = Inr st' \<Longrightarrow> clean_token token \<Longrightarrow> registry_clean st
     \<Longrightarrow> registry_clean st' \<and> grows st st'"
proof (induction fuel code st and fuel token st arbitrary: st' and st'
    rule: compile_tokens_compile_token.induct)
  case (1 fuel st)
  then show ?case by simp
next
  case (2 fuel token code st)
  from "2.prems" obtain s1 where
    a: "compile_token fuel token st = Inr s1" and b: "compile_tokens fuel code s1 = Inr st'"
    by (auto split: sum.splits)
  have 1: "registry_clean s1 \<and> grows st s1"
    using "2.IH"(1) a "2.prems" by simp
  then have "registry_clean st' \<and> grows s1 st'"
    using "2.IH"(2) a b "2.prems" by simp
  then show ?case
    using 1 by (blast intro: grows_trans)
next
  case (3 fuel name ty arr st)
  then have "extends st st'"
    by (auto split: option.splits intro: extends_declareArray extends_declareScalar)
  then show ?case
    using "3.prems" by (simp add: extends_imp_grows extends_imp_registry_clean)
next
  case (4 fuel name e v st)
  then have "extends st st'"
    by (auto intro: extends_setVariableAtDynamicIndex)
  then show ?case
    using "4.prems" by (simp add: extends_imp_grows extends_imp_registry_clean)
next
  case (5 fuel name k v st)
  then have "extends st st'"
    by (auto split: option.splits intro: extends_assignStatic)
  then show ?case
    using "5.prems" by (simp add: extends_imp_grows extends_imp_registry_clean)
next
  case (6 fuel v st)
  from "6.prems" obtain l s1 where
    e: "evalValue v st = Inr (l, s1)"
    and res: "st' = emit (if showsAsChar v (moveTo l s1) then ''~'' else ''.'') (moveTo l s1)"
    by (auto simp: Let_def split: sum.splits prod.splits)
  have "extends st s1"
    using extends_evalValue(1) e by blast
  moreover have "extends s1 st'"
    unfolding res by (auto simp: alphabet_def intro!: extends_basic)
  ultimately have "extends st st'"
    by (blast intro: extends_trans)
  then show ?case
    using "6.prems" by (simp add: extends_imp_grows extends_imp_registry_clean)
next
  case (7 fuel condition body st)
  from "7.prems" obtain c s1 s2 where
    cc: "conditionCell condition st = Inr (c, s1)"
    and b: "compile_tokens fuel body (steps [moveTo c, emit ''[''] s1) = Inr s2"
    and res: "st' = steps [moveTo c, emit '']''] s2"
    by (auto split: sum.splits prod.splits)
  have 1: "extends st (steps [moveTo c, emit ''[''] s1)"
    using extends_conditionCell [OF cc]
    by (auto simp: steps_def alphabet_def intro!: extends_basic)
  have 2: "registry_clean s2 \<and> grows (steps [moveTo c, emit ''[''] s1) s2"
    using "7.IH" cc b "7.prems" 1 by (simp add: extends_imp_registry_clean)
  have 3: "extends s2 st'"
    unfolding res by (auto simp: steps_def alphabet_def intro!: extends_basic)
  show ?case
    using 1 2 3
    by (blast intro: grows_trans extends_imp_grows extends_imp_registry_clean)
next
  case (8 fuel name st)
  then have "extends st st'"
    by (auto simp: steps_def alphabet_def split: option.splits if_splits intro!: extends_basic)
  then show ?case
    using "8.prems" by (simp add: extends_imp_grows extends_imp_registry_clean)
next
  case (9 fuel condition body st)
  from "9.prems" obtain c s1 s2 where
    cc: "conditionCell condition st = Inr (c, s1)"
    and b: "compile_tokens fuel body (steps [moveTo c, emit ''[''] s1) = Inr s2"
    and res: "st' = steps [moveTo c, clearCell, emit '']''] s2"
    by (auto split: sum.splits prod.splits)
  have 1: "extends st (steps [moveTo c, emit ''[''] s1)"
    using extends_conditionCell [OF cc]
    by (auto simp: steps_def alphabet_def intro!: extends_basic)
  have 2: "registry_clean s2 \<and> grows (steps [moveTo c, emit ''[''] s1) s2"
    using "9.IH" cc b "9.prems" 1 by (simp add: extends_imp_registry_clean)
  have 3: "extends s2 st'"
    unfolding res by (auto simp: steps_def alphabet_def intro!: extends_basic)
  show ?case
    using 1 2 3
    by (blast intro: grows_trans extends_imp_grows extends_imp_registry_clean)
next
  case (10 fuel safetySize body st)
  from "10.prems" obtain s2 where
    b: "compileUnsafe body (snd (reserveUnsafe safetySize st)) = Inr s2"
    and res: "st' = releaseUnsafe (fst (reserveUnsafe safetySize st)) safetySize s2"
    by (auto simp: split_beta split: sum.splits)
  have "extends st (snd (reserveUnsafe safetySize st))"
    by (rule extends_reserveUnsafe)
  moreover have "extends (snd (reserveUnsafe safetySize st)) s2"
    using extends_compileUnsafe(1) [OF b] "10.prems" by simp
  moreover have "extends s2 st'"
    unfolding res by (rule extends_releaseUnsafe)
  ultimately have "extends st st'"
    by (blast intro: extends_trans)
  then show ?case
    using "10.prems" by (simp add: extends_imp_grows extends_imp_registry_clean)
next
  case (11 fuel name body st)
  then show ?case
    by (auto simp: registry_clean_def grows_def intro!: list_all_map_set)
next
  case (12 name st)
  then show ?case
    by (auto split: option.splits)
next
  case (13 fuel name st)
  from "13.prems" obtain funcCode s1 where
    f: "map_of (functionsMap st) name = Some funcCode"
    and b: "compile_tokens fuel funcCode (resetState st) = Inr s1"
    and res: "st' = s1\<lparr>brainfuckCode := brainfuckCode st @ brainfuckCode s1\<rparr>"
    by (auto split: option.splits sum.splits)
  have "list_all clean_token funcCode"
    using registry_clean_lookup "13.prems"(3) f by blast
  moreover have "registry_clean (resetState st)"
    using "13.prems"(3) by (simp add: registry_clean_def resetState_def)
  ultimately have "registry_clean s1 \<and> grows (resetState st) s1"
    using "13.IH" f b by blast
  then show ?case
    unfolding res by (auto simp: registry_clean_def grows_def resetState_def)
next
  case (14 fuel name st)
  then show ?case by simp
qed


lemma bf_op_char_alphabet: "bf_op_char x \<in> alphabet"
  by (cases x) (simp_all add: alphabet_def)

lemma join_commas_alphabet: "set (join_commas ops) \<subseteq> alphabet"
proof (induction ops rule: join_commas.induct)
  case 1
  then show ?case by simp
next
  case (2 x)
  then show ?case by (simp add: bf_op_char_alphabet)
next
  case (3 x y ys)
  then show ?case by (simp add: bf_op_char_alphabet) (simp add: alphabet_def)
qed

lemma typed_unsafe_clean: "typed_unsafe t \<Longrightarrow> clean_unsafe t"
  by (induction t) (auto simp: list_all_iff join_commas_alphabet split: abstract_bf.splits)

lemma typed_token_clean: "typed_token t \<Longrightarrow> clean_token t"
  by (induction t) (auto simp: list_all_iff typed_unsafe_clean)

lemma registry_clean_initial: "registry_clean (resetState initial_state)"
  by (simp add: registry_clean_def resetState_def initial_state_def builtin_functions_def
      alphabet_def)

text \<open>
  C9, as the claim states it, fails: the builtin function \<open>__dump\<close> emits the character
  \<open>&\<close>, which is none of the eight instructions and not \<open>~\<close>.
\<close>

theorem dump_emits_ampersand:
  "compile 1 [CallToken ''__dump''] = Inr ''&[-]'' \<and> CHR ''&'' \<notin> set ''><+-.,[]~''"
  by (simp add: compile_eval cong: let_weak_cong prod.case_cong_weak)

text \<open>
  C9, amended.  For every token list of the declared type (every \<open>Abstract\<close> payload an
  array of instruction characters) that the compiler accepts, every character of the
  string returned by \<open>compile\<close> is one of the eight instructions, \<open>~\<close>, or the \<open>&\<close> of
  the builtin \<open>__dump\<close>.
\<close>

theorem compile_output_alphabet:
  assumes "list_all typed_token code" and "compile fuel code = Inr out"
  shows "set out \<subseteq> alphabet"
proof -
  from assms(2) obtain st where
    st: "compile_tokens fuel code (resetState initial_state) = Inr st"
    and out: "out = brainfuckCode st"
    by (auto simp: compile_def split: sum.splits)
  have "list_all clean_token code"
    using assms(1) by (auto simp: list_all_iff typed_token_clean)
  then have "grows (resetState initial_state) st"
    using compile_invariant(1) [OF st] registry_clean_initial by blast
  then show ?thesis
    by (auto simp: out grows_def resetState_def)
qed

theorem compile_output_alphabet_witness:
  "list_all typed_token char_show_program \<and> compile 0 char_show_program = Inr ''~''
   \<and> set ''~'' \<subseteq> alphabet"
proof -
  have a: "list_all typed_token char_show_program"
    by (simp add: char_show_program_def)
  have b: "compile 0 char_show_program = Inr ''~''"
    by (simp add: compile_eval char_show_program_def cong: let_weak_cong prod.case_cong_weak)
  show ?thesis
    using a b compile_output_alphabet [OF a b] by simp
qed

section \<open>The executor on a program inside a context\<close>

lemma fetch_Some_iff: "fetch code k = Some c \<longleftrightarrow> k < length code \<and> code ! k = c"
  by (auto simp: fetch_def Cons_nth_drop_Suc [symmetric] split: list.splits)
    (metis Cons_nth_drop_Suc drop_eq_Nil2 leD leI list.inject list.simps(3) nth_via_drop)+

lemma fetch_None_iff: "fetch code k = None \<longleftrightarrow> length code \<le> k"
  by (auto simp: fetch_def split: list.splits)

lemma fetch_context:
  "fetch B k = Some c \<Longrightarrow> fetch (A @ B @ C) (length A + k) = Some c"
  by (auto simp: fetch_Some_iff nth_append)

lemma scanForward_context:
  "scanForward B k lc = Some j \<Longrightarrow> scanForward (A @ B @ C) (length A + k) lc = Some (length A + j)"
proof (induction B k lc rule: scanForward.induct)
  case (1 code ip loopCount)
  show ?case
  proof (cases "loopCount = 0")
    case True
    then show ?thesis
      using "1.prems" by (simp add: scanForward.simps)
  next
    case False
    with "1.prems" obtain c where c: "fetch code (ip + 1) = Some c"
      by (subst (asm) scanForward.simps) (auto split: option.splits)
    let ?lc = "if c = CHR ''['' then loopCount + 1
               else if c = CHR '']'' then loopCount - 1 else loopCount"
    have "scanForward code (ip + 1) ?lc = Some j"
      using "1.prems" False c by (subst (asm) scanForward.simps) simp
    then have "scanForward (A @ code @ C) (length A + (ip + 1)) ?lc = Some (length A + j)"
      using "1.IH" False c by simp
    moreover have "fetch (A @ code @ C) (length A + ip + 1) = Some c"
      using fetch_context [OF c, of A C] by (simp add: add.assoc)
    ultimately show ?thesis
      using False by (subst scanForward.simps) (simp add: add.assoc)
  qed
qed

lemma scanBackward_context:
  "scanBackward B k lc = Some j \<Longrightarrow> k \<le> length B
     \<Longrightarrow> scanBackward (A @ B @ C) (length A + k) lc = Some (length A + j)"
proof (induction B k lc rule: scanBackward.induct)
  case (1 code ip)
  then show ?case by simp
next
  case (2 code loopCount)
  then show ?case by simp
next
  case (3 code ip loopCount)
  from "3.prems"(2) obtain c where c: "fetch code ip = Some c"
    by (cases "fetch code ip") (auto simp: fetch_None_iff)
  have ctx: "fetch (A @ code @ C) (length A + ip) = Some c"
    by (rule fetch_context [OF c])
  show ?case
    using "3.prems" "3.IH"(2) [OF c] c ctx by simp
qed


lemma step_context:
  assumes "fetch B (instructionPointer s) = Some c" and "step B opts c s = Inr s'"
  shows "step (A @ B @ C) opts c (shift (length A) s) = Inr (shift (length A) s')"
proof -
  have lt: "instructionPointer s < length B"
    using assms(1) by (simp add: fetch_Some_iff)
  consider (open0) "c = CHR ''[''" "mem_get (memory s) (dataPointer s) = Num 0"
    | (close1) "c = CHR '']''" "mem_get (memory s) (dataPointer s) \<noteq> Num 0"
    | (other) "\<not> (c = CHR ''['' \<and> mem_get (memory s) (dataPointer s) = Num 0)"
        "\<not> (c = CHR '']'' \<and> mem_get (memory s) (dataPointer s) \<noteq> Num 0)"
    by blast
  then show ?thesis
  proof cases
    case open0
    with assms(2) obtain j where
      j: "scanForward B (instructionPointer s) 1 = Some j"
      and s': "s' = s\<lparr>instructionPointer := j + 1\<rparr>"
      by (auto simp: step_def Let_def split: option.splits)
    have "scanForward (A @ B @ C) (length A + instructionPointer s) 1 = Some (length A + j)"
      by (rule scanForward_context [OF j])
    then show ?thesis
      using open0 s' by (simp add: step_def shift_def add.commute)
  next
    case close1
    with assms(2) obtain j where
      j: "scanBackward B (instructionPointer s) 1 = Some j"
      and s': "s' = s\<lparr>instructionPointer := j + 1\<rparr>"
      by (auto simp: step_def Let_def split: option.splits)
    have "scanBackward (A @ B @ C) (length A + instructionPointer s) 1 = Some (length A + j)"
      using scanBackward_context [OF j] lt by simp
    then show ?thesis
      using close1 s' by (simp add: step_def shift_def add.commute)
  next
    case other
    then show ?thesis
      using assms(2)
      by (auto simp: step_def shift_def Let_def split: if_splits)
  qed
qed

lemma exec_context:
  "exec B opts n s = Some s' \<Longrightarrow>
   exec (A @ B @ C) opts n (shift (length A) s) = Some (shift (length A) s')"
proof (induction n arbitrary: s)
  case 0
  then show ?case by simp
next
  case (Suc n)
  from Suc.prems obtain c s1 where
    c: "fetch B (instructionPointer s) = Some c"
    and st: "step B opts c s = Inr s1"
    and rest: "exec B opts n s1 = Some s'"
    by (auto split: option.splits sum.splits)
  have "fetch (A @ B @ C) (instructionPointer (shift (length A) s)) = Some c"
    using fetch_context [OF c, of A C] by (simp add: shift_def add.commute)
  moreover have "step (A @ B @ C) opts c (shift (length A) s) = Inr (shift (length A) s1)"
    by (rule step_context [OF c st])
  ultimately show ?case
    using Suc.IH [OF rest] by simp
qed

lemma exec_add:
  "exec code opts n s = Some s1 \<Longrightarrow> exec code opts (n + m) s = exec code opts m s1"
  by (induction n arbitrary: s) (auto split: option.splits sum.splits)

lemma reaches_refl [simp]: "reaches code opts s s"
  unfolding reaches_def by (rule exI [of _ 0]) simp

lemma reaches_trans:
  "reaches code opts s s1 \<Longrightarrow> reaches code opts s1 s2 \<Longrightarrow> reaches code opts s s2"
  unfolding reaches_def by (metis exec_add)

lemma reaches_step:
  "fetch code (instructionPointer s) = Some c \<Longrightarrow> step code opts c s = Inr s1
     \<Longrightarrow> reaches code opts s1 s2 \<Longrightarrow> reaches code opts s s2"
proof -
  assume c: "fetch code (instructionPointer s) = Some c" and st: "step code opts c s = Inr s1"
    and r: "reaches code opts s1 s2"
  from r obtain n where "exec code opts n s1 = Some s2"
    by (auto simp: reaches_def)
  then have "exec code opts (Suc n) s = Some s2"
    using c st by simp
  then show ?thesis
    unfolding reaches_def by blast
qed

lemma reaches_context:
  "reaches B opts s s' \<Longrightarrow> reaches (A @ B @ C) opts (shift (length A) s) (shift (length A) s')"
  unfolding reaches_def by (blast intro: exec_context)

lemma exec_run:
  "exec code opts n s = Some s' \<Longrightarrow> fetch code (instructionPointer s') = None
     \<Longrightarrow> run (n + m) code opts s = Some (Inr s')"
proof (induction n arbitrary: s)
  case 0
  then show ?case by (simp add: run.simps)
next
  case (Suc n)
  from Suc.prems(1) obtain c s1 where
    c: "fetch code (instructionPointer s) = Some c"
    and st: "step code opts c s = Inr s1"
    and rest: "exec code opts n s1 = Some s'"
    by (auto split: option.splits sum.splits)
  show ?case
    using Suc.IH [OF rest Suc.prems(2)] c st by (subst run.simps) simp
qed

lemma run_exec:
  "run n code opts s = Some (Inr s') \<Longrightarrow>
   (\<exists>k. exec code opts k s = Some s') \<and> fetch code (instructionPointer s') = None"
proof (induction n arbitrary: s)
  case 0
  then have "fetch code (instructionPointer s) = None" and "s' = s"
    by (auto simp: run.simps split: option.splits)
  then show ?case
    by (auto intro: exI [of _ 0])
next
  case (Suc n)
  show ?case
  proof (cases "fetch code (instructionPointer s)")
    case None
    then have "s' = s"
      using Suc.prems by (simp add: run.simps)
    then show ?thesis
      using None by (auto intro: exI [of _ 0])
  next
    case (Some c)
    with Suc.prems obtain s1 where
      st: "step code opts c s = Inr s1" and rest: "run n code opts s1 = Some (Inr s')"
      by (subst (asm) run.simps) (auto split: sum.splits)
    from Suc.IH [OF rest] obtain k where
      k: "exec code opts k s1 = Some s'" and f: "fetch code (instructionPointer s') = None"
      by blast
    have "exec code opts (Suc k) s = Some s'"
      using Some st k by simp
    then show ?thesis
      using f by blast
  qed
qed

lemma reaches_run:
  "reaches code opts s s' \<Longrightarrow> fetch code (instructionPointer s') = None
     \<Longrightarrow> \<exists>n. run n code opts s = Some (Inr s')"
  unfolding reaches_def using exec_run [where m = 0] by fastforce

lemma run_reaches:
  "run n code opts s = Some (Inr s') \<Longrightarrow> reaches code opts s s'"
  unfolding reaches_def using run_exec by blast


section \<open>Pointer moves\<close>

lemma wrap_less: "wrap p < memorySize"
  by (simp add: wrap_def memorySize_def nat_less_iff)

lemma wrap_right: "(wrap p + 1) mod memorySize = wrap (p + 1)"
proof -
  have "int ((wrap p + 1) mod memorySize) = (p mod int memorySize + 1) mod int memorySize"
    by (simp add: wrap_def memorySize_def zmod_int add.commute)
  also have "\<dots> = (p + 1) mod int memorySize"
    by (simp add: mod_add_left_eq)
  finally show ?thesis
    by (simp add: wrap_def memorySize_def nat_eq_iff)
qed

lemma wrap_left: "(wrap p + memorySize - 1) mod memorySize = wrap (p - 1)"
proof -
  have "int ((wrap p + memorySize - 1) mod memorySize)
      = (p mod int memorySize + (int memorySize - 1)) mod int memorySize"
    by (simp add: wrap_def memorySize_def zmod_int of_nat_diff add.commute)
  also have "\<dots> = (p + (int memorySize - 1)) mod int memorySize"
    by (simp add: mod_add_left_eq)
  also have "\<dots> = (p - 1) mod int memorySize"
    by (metis add.commute add_diff_eq diff_add_eq mod_add_self1)
  finally show ?thesis
    by (simp add: wrap_def memorySize_def nat_eq_iff)
qed

lemma wrap_right_Suc: "Suc (wrap p) mod memorySize = wrap (p + 1)"
  using wrap_right [of p] by simp

lemma wrap_left_Suc: "(wrap p + memorySize - Suc 0) mod memorySize = wrap (p - 1)"
  using wrap_left [of p] by simp

lemma fetch_middle: "fetch (A @ c # C) (length A) = Some c"
  by (simp add: fetch_Some_iff)

lemma reaches_right:
  "instructionPointer s = length A \<Longrightarrow> dataPointer s = wrap p \<Longrightarrow>
   reaches (A @ replicate k CHR ''>'' @ C) opts s
     (s\<lparr>dataPointer := wrap (p + int k), instructionPointer := length A + k\<rparr>)"
proof (induction k arbitrary: A s p)
  case 0
  then have "s\<lparr>dataPointer := wrap (p + int 0), instructionPointer := length A + 0\<rparr> = s"
    by (cases s) simp
  then show ?case
    by (metis reaches_refl)
next
  case (Suc k)
  let ?code = "A @ replicate (Suc k) CHR ''>'' @ C"
  let ?s1 = "s\<lparr>dataPointer := wrap (p + 1), instructionPointer := length A + 1\<rparr>"
  have f: "fetch ?code (instructionPointer s) = Some CHR ''>''"
    using Suc.prems(1) fetch_middle [of A "CHR ''>''" "replicate k CHR ''>'' @ C"] by simp
  have st: "step ?code opts CHR ''>'' s = Inr ?s1"
    using Suc.prems by (simp add: step_def wrap_right_Suc)
  have "reaches ((A @ ''>'') @ replicate k CHR ''>'' @ C) opts ?s1
          (?s1\<lparr>dataPointer := wrap (p + 1 + int k),
                instructionPointer := length (A @ ''>'') + k\<rparr>)"
    by (rule Suc.IH) simp_all
  then have "reaches ?code opts ?s1
          (s\<lparr>dataPointer := wrap (p + int (Suc k)), instructionPointer := length A + Suc k\<rparr>)"
    by (simp add: add.commute add.left_commute)
  then show ?case
    using reaches_step [OF f st] by blast
qed

lemma reaches_left:
  "instructionPointer s = length A \<Longrightarrow> dataPointer s = wrap p \<Longrightarrow>
   reaches (A @ replicate k CHR ''<'' @ C) opts s
     (s\<lparr>dataPointer := wrap (p - int k), instructionPointer := length A + k\<rparr>)"
proof (induction k arbitrary: A s p)
  case 0
  then have "s\<lparr>dataPointer := wrap (p - int 0), instructionPointer := length A + 0\<rparr> = s"
    by (cases s) simp
  then show ?case
    by (metis reaches_refl)
next
  case (Suc k)
  let ?code = "A @ replicate (Suc k) CHR ''<'' @ C"
  let ?s1 = "s\<lparr>dataPointer := wrap (p - 1), instructionPointer := length A + 1\<rparr>"
  have f: "fetch ?code (instructionPointer s) = Some CHR ''<''"
    using Suc.prems(1) fetch_middle [of A "CHR ''<''" "replicate k CHR ''<'' @ C"] by simp
  have st: "step ?code opts CHR ''<'' s = Inr ?s1"
    using Suc.prems by (simp add: step_def wrap_left_Suc)
  have "reaches ((A @ ''<'') @ replicate k CHR ''<'' @ C) opts ?s1
          (?s1\<lparr>dataPointer := wrap (p - 1 - int k),
                instructionPointer := length (A @ ''<'') + k\<rparr>)"
    by (rule Suc.IH) simp_all
  then have "reaches ?code opts ?s1
          (s\<lparr>dataPointer := wrap (p - int (Suc k)), instructionPointer := length A + Suc k\<rparr>)"
    by (simp add: add.commute add.left_commute diff_diff_eq)
  then show ?case
    using reaches_step [OF f st] by blast
qed

lemma length_moves: "length (moves p q) = nat \<bar>q - p\<bar>"
  by (simp add: moves_def)

lemma reaches_moves:
  assumes "instructionPointer s = length A" and "dataPointer s = wrap p"
  shows "reaches (A @ moves p q @ C) opts s
     (s\<lparr>dataPointer := wrap q, instructionPointer := length A + length (moves p q)\<rparr>)"
proof (cases "p < q")
  case True
  then show ?thesis
    using reaches_right [OF assms, of "nat (q - p)" C opts] by (simp add: moves_def)
next
  case False
  then show ?thesis
    using reaches_left [OF assms, of "nat (p - q)" C opts] by (simp add: moves_def)
qed


section \<open>Clearing a cell\<close>

lemma mem_get_mem_set: "mem_get (mem_set m a c) b = (if b = a then c else mem_get m b)"
  by (simp add: mem_get_def mem_set_def map_of_map_set)

lemma mem_get_mem_set_fun: "mem_get (mem_set m a c) = (mem_get m)(a := c)"
  by (rule ext) (simp add: mem_get_mem_set)

lemma scanBackward_clear: "scanBackward ''[-]'' 2 (Suc 0) = Some 0"
  by (simp add: eval_nat_numeral fetch_def)

lemma scanForward_clear: "scanForward ''[-]'' 0 (Suc 0) = Some 2"
  by (simp add: scanForward.simps fetch_def)

lemma clear_from_close:
  "instructionPointer u = 2 \<Longrightarrow> mem_get (memory u) (dataPointer u) = Num w \<Longrightarrow> w < bits opts
   \<Longrightarrow> \<exists>u'. reaches ''[-]'' opts u u' \<and> instructionPointer u' = 3
          \<and> dataPointer u' = dataPointer u \<and> outputText u' = outputText u
          \<and> inputPointer u' = inputPointer u
          \<and> mem_get (memory u') = (mem_get (memory u))(dataPointer u := Num 0)"
proof (induction w arbitrary: u)
  case 0
  let ?u' = "u\<lparr>instructionPointer := 3\<rparr>"
  have f: "fetch ''[-]'' (instructionPointer u) = Some CHR '']''"
    using 0 by (simp add: fetch_def)
  have st: "step ''[-]'' opts CHR '']'' u = Inr ?u'"
    using 0 by (simp add: step_def)
  have "reaches ''[-]'' opts u ?u'"
    using reaches_step [OF f st reaches_refl] .
  moreover have "mem_get (memory ?u') = (mem_get (memory u))(dataPointer u := Num 0)"
    using 0 by (auto simp: fun_eq_iff)
  ultimately show ?case
    by (intro exI [of _ ?u']) simp
next
  case (Suc x)
  let ?u1 = "u\<lparr>instructionPointer := 1\<rparr>"
  let ?u2 = "u\<lparr>memory := mem_set (memory u) (dataPointer u) (Num x), instructionPointer := 2\<rparr>"
  have f1: "fetch ''[-]'' (instructionPointer u) = Some CHR '']''"
    using Suc.prems by (simp add: fetch_def)
  have st1: "step ''[-]'' opts CHR '']'' u = Inr ?u1"
    using Suc.prems by (simp add: step_def scanBackward_clear)
  have f2: "fetch ''[-]'' (instructionPointer ?u1) = Some CHR ''-''"
    by (simp add: fetch_def)
  have "(Suc x + bits opts - 1) mod bits opts = x"
    using Suc.prems(3) by simp
  then have st2: "step ''[-]'' opts CHR ''-'' ?u1 = Inr ?u2"
    using Suc.prems by (simp add: step_def cell_dec_def js_mod_def)
  have "\<exists>u'. reaches ''[-]'' opts ?u2 u' \<and> instructionPointer u' = 3
          \<and> dataPointer u' = dataPointer ?u2 \<and> outputText u' = outputText ?u2
          \<and> inputPointer u' = inputPointer ?u2
          \<and> mem_get (memory u') = (mem_get (memory ?u2))(dataPointer ?u2 := Num 0)"
    using Suc.prems(3) by (intro Suc.IH) (simp_all add: mem_get_mem_set)
  then obtain u' where
    r: "reaches ''[-]'' opts ?u2 u'" and p: "instructionPointer u' = 3"
      "dataPointer u' = dataPointer u" "outputText u' = outputText u"
      "inputPointer u' = inputPointer u"
    and m: "mem_get (memory u') = (mem_get (memory ?u2))(dataPointer u := Num 0)"
    by auto
  have "reaches ''[-]'' opts u u'"
    using reaches_step [OF f1 st1 reaches_step [OF f2 st2 r]] .
  moreover have "mem_get (memory u') = (mem_get (memory u))(dataPointer u := Num 0)"
    using m by (simp add: mem_get_mem_set_fun)
  ultimately show ?case
    using p by blast
qed

lemma clear_standalone:
  assumes "instructionPointer s = 0" and "mem_get (memory s) (dataPointer s) = Num v"
    and "0 < bits opts"
  shows "\<exists>s'. reaches ''[-]'' opts s s' \<and> instructionPointer s' = 3
          \<and> dataPointer s' = dataPointer s \<and> outputText s' = outputText s
          \<and> inputPointer s' = inputPointer s
          \<and> mem_get (memory s') = (mem_get (memory s))(dataPointer s := Num 0)"
proof (cases "v = 0")
  case True
  let ?s' = "s\<lparr>instructionPointer := 3\<rparr>"
  have f: "fetch ''[-]'' (instructionPointer s) = Some CHR ''[''"
    using assms by (simp add: fetch_def)
  have st: "step ''[-]'' opts CHR ''['' s = Inr ?s'"
    using assms True by (simp add: step_def scanForward_clear)
  have "reaches ''[-]'' opts s ?s'"
    using reaches_step [OF f st reaches_refl] .
  moreover have "mem_get (memory ?s') = (mem_get (memory s))(dataPointer s := Num 0)"
    using assms True by (auto simp: fun_eq_iff)
  ultimately show ?thesis
    by (intro exI [of _ ?s']) simp
next
  case False
  let ?w = "(v + bits opts - 1) mod bits opts"
  let ?s1 = "s\<lparr>instructionPointer := 1\<rparr>"
  let ?s2 = "s\<lparr>memory := mem_set (memory s) (dataPointer s) (Num ?w), instructionPointer := 2\<rparr>"
  have f1: "fetch ''[-]'' (instructionPointer s) = Some CHR ''[''"
    using assms by (simp add: fetch_def)
  have st1: "step ''[-]'' opts CHR ''['' s = Inr ?s1"
    using assms False by (simp add: step_def)
  have f2: "fetch ''[-]'' (instructionPointer ?s1) = Some CHR ''-''"
    by (simp add: fetch_def)
  have st2: "step ''[-]'' opts CHR ''-'' ?s1 = Inr ?s2"
    using assms by (simp add: step_def cell_dec_def js_mod_def)
  have "\<exists>u'. reaches ''[-]'' opts ?s2 u' \<and> instructionPointer u' = 3
          \<and> dataPointer u' = dataPointer ?s2 \<and> outputText u' = outputText ?s2
          \<and> inputPointer u' = inputPointer ?s2
          \<and> mem_get (memory u') = (mem_get (memory ?s2))(dataPointer ?s2 := Num 0)"
    using assms(3) by (intro clear_from_close [where w = ?w]) (simp_all add: mem_get_mem_set)
  then obtain u' where
    r: "reaches ''[-]'' opts ?s2 u'" and p: "instructionPointer u' = 3"
      "dataPointer u' = dataPointer s" "outputText u' = outputText s"
      "inputPointer u' = inputPointer s"
    and m: "mem_get (memory u') = (mem_get (memory ?s2))(dataPointer s := Num 0)"
    by auto
  have "reaches ''[-]'' opts s u'"
    using reaches_step [OF f1 st1 reaches_step [OF f2 st2 r]] .
  moreover have "mem_get (memory u') = (mem_get (memory s))(dataPointer s := Num 0)"
    using m by (simp add: mem_get_mem_set_fun)
  ultimately show ?thesis
    using p by blast
qed


section \<open>Skipping a loop\<close>

lemma passes_append:
  "passes (X @ Y) d = (case passes X d of None \<Rightarrow> None | Some d' \<Rightarrow> passes Y d')"
  by (induction X arbitrary: d) (auto simp: Let_def)

lemma passes_replicate:
  "c \<noteq> CHR ''['' \<Longrightarrow> c \<noteq> CHR '']'' \<Longrightarrow> 0 < d \<Longrightarrow> passes (replicate k c) d = Some d"
  by (induction k) (auto simp: Let_def)

lemma passes_moves: "0 < d \<Longrightarrow> passes (moves p q) d = Some d"
  by (simp add: moves_def passes_replicate)

lemma passes_clear: "0 < d \<Longrightarrow> passes ''[-]'' d = Some d"
  by (simp add: Let_def)

lemma scanForward_passes:
  "passes X d = Some d' \<Longrightarrow> 0 < d \<Longrightarrow>
   scanForward (A @ c0 # X @ C) (length A) d
     = scanForward (A @ c0 # X @ C) (length A + length X) d'"
proof (induction X arbitrary: A c0 d)
  case Nil
  then show ?case by simp
next
  case (Cons x X)
  let ?d1 = "if x = CHR ''['' then d + 1 else if x = CHR '']'' then d - 1 else d"
  from Cons.prems have d1: "?d1 \<noteq> 0" and rest: "passes X ?d1 = Some d'"
    by (auto simp: Let_def split: if_splits)
  have f: "fetch (A @ c0 # (x # X) @ C) (length A + 1) = Some x"
    using fetch_middle [of "A @ [c0]" x "X @ C"] by simp
  have "scanForward (A @ c0 # (x # X) @ C) (length A) d
      = scanForward (A @ c0 # (x # X) @ C) (length A + 1) ?d1"
    using Cons.prems(2) f by (subst scanForward.simps) simp
  also have "\<dots> = scanForward ((A @ [c0]) @ x # X @ C) (length (A @ [c0])) ?d1"
    by simp
  also have "\<dots> = scanForward ((A @ [c0]) @ x # X @ C) (length (A @ [c0]) + length X) d'"
    using d1 by (intro Cons.IH [OF rest]) simp
  finally show ?case
    by simp
qed

lemma scanForward_skip:
  assumes "passes X 1 = Some 1"
  shows "scanForward (A @ CHR ''['' # X @ CHR '']'' # C) (length A) 1
           = Some (length A + length X + 1)"
proof -
  let ?code = "A @ CHR ''['' # X @ CHR '']'' # C"
  have "scanForward ?code (length A) 1 = scanForward ?code (length A + length X) 1"
    using scanForward_passes [OF assms, of A "CHR ''[''" "CHR '']'' # C"] by simp
  moreover have "fetch ?code (length A + length X + 1) = Some CHR '']''"
    using fetch_middle [of "A @ CHR ''['' # X" "CHR '']''" C] by simp
  ultimately show ?thesis
    by (simp add: scanForward.simps)
qed

section \<open>The instruction pointer stays within the program\<close>

lemma scanForward_bound:
  "scanForward code ip lc = Some j \<Longrightarrow> 0 < lc \<Longrightarrow> j < length code"
proof (induction code ip lc rule: scanForward.induct)
  case (1 code ip loopCount)
  from "1.prems" obtain c where c: "fetch code (ip + 1) = Some c"
    by (subst (asm) scanForward.simps) (auto split: option.splits)
  let ?lc = "if c = CHR ''['' then loopCount + 1
             else if c = CHR '']'' then loopCount - 1 else loopCount"
  have r: "scanForward code (ip + 1) ?lc = Some j"
    using "1.prems" c by (subst (asm) scanForward.simps) simp
  show ?case
  proof (cases "?lc = 0")
    case True
    then have "j = ip + 1"
      using r by (simp add: scanForward.simps)
    then show ?thesis
      using c by (simp add: fetch_Some_iff)
  next
    case False
    then show ?thesis
      using "1.IH" [OF _ c r] "1.prems"(2) by simp
  qed
qed

lemma scanBackward_le: "scanBackward code ip lc = Some j \<Longrightarrow> j \<le> ip"
  by (induction code ip lc rule: scanBackward.induct)
    (auto split: option.splits if_splits intro: le_SucI)

lemma step_ip_bound:
  assumes "fetch code (instructionPointer s) = Some c" and "step code opts c s = Inr s'"
  shows "instructionPointer s' \<le> length code"
proof -
  have lt: "instructionPointer s < length code"
    using assms(1) by (simp add: fetch_Some_iff)
  consider (open0) "c = CHR ''[''" "mem_get (memory s) (dataPointer s) = Num 0"
    | (close1) "c = CHR '']''" "mem_get (memory s) (dataPointer s) \<noteq> Num 0"
    | (other) "\<not> (c = CHR ''['' \<and> mem_get (memory s) (dataPointer s) = Num 0)"
        "\<not> (c = CHR '']'' \<and> mem_get (memory s) (dataPointer s) \<noteq> Num 0)"
    by blast
  then show ?thesis
  proof cases
    case open0
    with assms(2) obtain j where
      j: "scanForward code (instructionPointer s) 1 = Some j"
      and s': "s' = s\<lparr>instructionPointer := j + 1\<rparr>"
      by (auto simp: step_def Let_def split: option.splits)
    show ?thesis
      using scanForward_bound [OF j] s' by simp
  next
    case close1
    with assms(2) obtain j where
      j: "scanBackward code (instructionPointer s) 1 = Some j"
      and s': "s' = s\<lparr>instructionPointer := j + 1\<rparr>"
      by (auto simp: step_def Let_def split: option.splits)
    show ?thesis
      using scanBackward_le [OF j] s' lt by simp
  next
    case other
    then show ?thesis
      using assms(2) lt by (auto simp: step_def Let_def split: if_splits)
  qed
qed

lemma exec_ip_bound:
  "exec code opts n s = Some s' \<Longrightarrow> instructionPointer s \<le> length code
     \<Longrightarrow> instructionPointer s' \<le> length code"
proof (induction n arbitrary: s)
  case 0
  then show ?case by simp
next
  case (Suc n)
  from Suc.prems(1) obtain c s1 where
    c: "fetch code (instructionPointer s) = Some c"
    and st: "step code opts c s = Inr s1"
    and rest: "exec code opts n s1 = Some s'"
    by (auto split: option.splits sum.splits)
  show ?case
    using Suc.IH [OF rest step_ip_bound [OF c st]] .
qed

lemma run_final_ip:
  assumes "run n code opts s = Some (Inr s')" and "instructionPointer s \<le> length code"
  shows "instructionPointer s' = length code"
proof -
  from run_exec [OF assms(1)] obtain k where
    k: "exec code opts k s = Some s'" and f: "fetch code (instructionPointer s') = None"
    by blast
  show ?thesis
    using exec_ip_bound [OF k assms(2)] f by (simp add: fetch_None_iff)
qed


section \<open>The code of an if statement\<close>

lemma if_code_Cons:
  "if_code p c B p' = moves p c @ CHR ''['' # (B @ moves p' c @ ''[-]'') @ CHR '']'' # []"
  by (simp add: if_code_def)

lemma length_if_code:
  "length (if_code p c B p') = length (moves p c) + length B + length (moves p' c) + 5"
  by (simp add: if_code_def)

lemma if_code_zero:
  assumes "instructionPointer s = 0" and "dataPointer s = wrap p"
    and "mem_get (memory s) (wrap c) = Num 0" and "balanced B"
  shows "\<exists>n. run n (if_code p c B p') opts s
           = Some (Inr (s\<lparr>dataPointer := wrap c,
                           instructionPointer := length (if_code p c B p')\<rparr>))"
proof -
  let ?M = "moves p c"
  let ?X = "B @ moves p' c @ ''[-]''"
  let ?code = "if_code p c B p'"
  let ?s1 = "s\<lparr>dataPointer := wrap c, instructionPointer := length ?M\<rparr>"
  let ?s2 = "s\<lparr>dataPointer := wrap c, instructionPointer := length ?code\<rparr>"
  have r1: "reaches ?code opts s ?s1"
    using reaches_moves [of s "[]" p c "CHR ''['' # ?X @ CHR '']'' # []" opts] assms(1,2)
    by (simp add: if_code_def)
  have pass: "passes ?X 1 = Some 1"
    using assms(4) by (simp add: balanced_def passes_append passes_moves passes_clear)
  have scan: "scanForward ?code (length ?M) 1 = Some (length ?M + length ?X + 1)"
    using scanForward_skip [OF pass, of ?M "[]"] by (simp add: if_code_def)
  have f: "fetch ?code (instructionPointer ?s1) = Some CHR ''[''"
    using fetch_middle [of ?M "CHR ''[''" "?X @ CHR '']'' # []"] by (simp add: if_code_def)
  have st: "step ?code opts CHR ''['' ?s1 = Inr ?s2"
    using assms(3) scan by (simp add: step_def length_if_code)
  have "reaches ?code opts s ?s2"
    using reaches_trans [OF r1 reaches_step [OF f st reaches_refl]] .
  moreover have "fetch ?code (instructionPointer ?s2) = None"
    by (simp add: fetch_None_iff)
  ultimately show ?thesis
    using reaches_run by blast
qed

lemma if_code_nonzero:
  assumes ip: "instructionPointer s = 0" and dp: "dataPointer s = wrap p"
    and nz: "mem_get (memory s) (wrap c) \<noteq> Num 0"
    and body: "run nb B opts (s\<lparr>dataPointer := wrap c\<rparr>) = Some (Inr sb)"
    and dpb: "dataPointer sb = wrap p'"
    and num: "mem_get (memory sb) (wrap c) = Num v"
    and bits: "0 < bits opts"
  shows "\<exists>n s'. run n (if_code p c B p') opts s = Some (Inr s')
           \<and> dataPointer s' = wrap c
           \<and> mem_get (memory s') = (mem_get (memory sb))(wrap c := Num 0)
           \<and> outputText s' = outputText sb \<and> inputPointer s' = inputPointer sb"
proof -
  let ?M = "moves p c"
  let ?M' = "moves p' c"
  let ?code = "if_code p c B p'"
  let ?A1 = "?M @ ''[''"
  let ?A2 = "?M @ ''['' @ B"
  let ?A3 = "?M @ ''['' @ B @ ?M'"
  let ?s1 = "s\<lparr>dataPointer := wrap c, instructionPointer := length ?M\<rparr>"
  let ?s2 = "s\<lparr>dataPointer := wrap c, instructionPointer := length ?A1\<rparr>"
  let ?sb0 = "s\<lparr>dataPointer := wrap c\<rparr>"
  let ?s3 = "shift (length ?A1) sb"
  let ?s4 = "?s3\<lparr>dataPointer := wrap c, instructionPointer := length ?A3\<rparr>"
  have r1: "reaches ?code opts s ?s1"
    using reaches_moves [of s "[]" p c "''['' @ B @ ?M' @ ''[-]'' @ '']''" opts] ip dp
    by (simp add: if_code_def)
  have f1: "fetch ?code (instructionPointer ?s1) = Some CHR ''[''"
    using fetch_middle [of ?M "CHR ''[''" "B @ ?M' @ ''[-]'' @ '']''"] by (simp add: if_code_def)
  have st1: "step ?code opts CHR ''['' ?s1 = Inr ?s2"
    using nz by (simp add: step_def)
  have r2: "reaches ?code opts s ?s2"
    using reaches_trans [OF r1 reaches_step [OF f1 st1 reaches_refl]] .
  have ipb: "instructionPointer sb = length B"
    using run_final_ip [OF body] ip by simp
  have "reaches B opts ?sb0 sb"
    using run_reaches [OF body] .
  then have "reaches (?A1 @ B @ (?M' @ ''[-]'' @ '']'')) opts (shift (length ?A1) ?sb0) ?s3"
    by (rule reaches_context)
  moreover have "shift (length ?A1) ?sb0 = ?s2"
    using ip by (simp add: shift_def)
  ultimately have r3: "reaches ?code opts ?s2 ?s3"
    by (simp add: if_code_def)
  have "reaches (?A2 @ ?M' @ (''[-]'' @ '']'')) opts ?s3
          (?s3\<lparr>dataPointer := wrap c, instructionPointer := length ?A2 + length ?M'\<rparr>)"
    using ipb dpb by (intro reaches_moves) (simp_all add: shift_def)
  then have r4: "reaches ?code opts ?s3 ?s4"
    by (simp add: if_code_def add.assoc)
  let ?t0 = "?s4\<lparr>instructionPointer := 0\<rparr>"
  have "\<exists>t'. reaches ''[-]'' opts ?t0 t' \<and> instructionPointer t' = 3
          \<and> dataPointer t' = dataPointer ?t0 \<and> outputText t' = outputText ?t0
          \<and> inputPointer t' = inputPointer ?t0
          \<and> mem_get (memory t') = (mem_get (memory ?t0))(dataPointer ?t0 := Num 0)"
    using num bits by (intro clear_standalone [where v = v]) (simp_all add: shift_def)
  then obtain t' where
    rt: "reaches ''[-]'' opts ?t0 t'" and t': "instructionPointer t' = 3"
      "dataPointer t' = wrap c" "outputText t' = outputText sb"
      "inputPointer t' = inputPointer sb"
      "mem_get (memory t') = (mem_get (memory sb))(wrap c := Num 0)"
    by (auto simp: shift_def)
  let ?s5 = "shift (length ?A3) t'"
  have "reaches (?A3 @ ''[-]'' @ '']'') opts (shift (length ?A3) ?t0) ?s5"
    using rt by (rule reaches_context)
  moreover have "shift (length ?A3) ?t0 = ?s4"
    by (simp add: shift_def)
  ultimately have r5: "reaches ?code opts ?s4 ?s5"
    by (simp add: if_code_def)
  let ?s6 = "?s5\<lparr>instructionPointer := length ?code\<rparr>"
  have ip5: "instructionPointer ?s5 = length (?A3 @ ''[-]'')"
    using t'(1) by (simp add: shift_def)
  have c6: "?code = (?A3 @ ''[-]'') @ CHR '']'' # []"
    by (simp add: if_code_def)
  have f6: "fetch ?code (instructionPointer ?s5) = Some CHR '']''"
    unfolding ip5 by (subst c6) (rule fetch_middle)
  have st6: "step ?code opts CHR '']'' ?s5 = Inr ?s6"
    using t' by (simp add: step_def shift_def length_if_code)
  have "reaches ?code opts s ?s6"
    using reaches_trans [OF r2 reaches_trans [OF r3 reaches_trans [OF r4
          reaches_trans [OF r5 reaches_step [OF f6 st6 reaches_refl]]]]] .
  moreover have "fetch ?code (instructionPointer ?s6) = None"
    by (simp add: fetch_None_iff)
  ultimately obtain n where "run n ?code opts s = Some (Inr ?s6)"
    using reaches_run by blast
  moreover have "dataPointer ?s6 = wrap c"
    "mem_get (memory ?s6) = (mem_get (memory sb))(wrap c := Num 0)"
    "outputText ?s6 = outputText sb" "inputPointer ?s6 = inputPointer sb"
    using t' by (simp_all add: shift_def)
  ultimately show ?thesis
    by blast
qed


lemma brainfuckCode_moveTo:
  "brainfuckCode (moveTo q st) = brainfuckCode st @ moves (pointerLocation st) q"
  by (simp add: moveTo_def moves_def emit_def Let_def)

lemma pointerLocation_moveTo: "pointerLocation (moveTo q st) = q"
  by (simp add: moveTo_def emit_def Let_def)

lemma compile_if_code:
  assumes "conditionCell condition st = Inr (c, st1)"
    and "compile_tokens fuel body (steps [moveTo c, emit ''[''] st1) = Inr st2"
    and "brainfuckCode st2 = brainfuckCode (steps [moveTo c, emit ''[''] st1) @ body_code"
  shows "\<exists>st'. compile_token fuel (IfToken condition body) st = Inr st'
           \<and> brainfuckCode st'
               = brainfuckCode st1 @ if_code (pointerLocation st1) c body_code (pointerLocation st2)"
  using assms
  by (simp add: steps_def clearCell_def emit_def brainfuckCode_moveTo if_code_def)

text \<open>
  C4, as the claim states it, fails: in
  \<open>define c number  set c 1  if c { unsafe 1 { abstract > end } }\<close> the raw \<open>>\<close> moves
  the tape pointer without the compiler's knowledge, the closing \<open>[-]\<close> of the \<open>if\<close>
  clears cell 1 instead of the condition cell 0, and the condition cell holds 1 after
  the statement.
\<close>

theorem if_leaves_condition_set_after_raw_move:
  "compile 0 desync_program = Inr ''[-]+[>>[-]<[-]]''
   \<and> run 100 ''[-]+[>>[-]<[-]]'' test_options start_state
       = Some (Inr \<lparr>memory = [(0, Num 1)], dataPointer = 1, instructionPointer = 15,
                     outputText = [], inputPointer = 0\<rparr>)"
  by (simp add: compile_eval run_eval desync_program_def test_options_def
      cong: let_weak_cong prod.case_cong_weak)

section \<open>Running code fragments one after the other\<close>

lemma shift_zero [simp]: "shift 0 s = s"
  by (simp add: shift_def)

lemma runs_Nil [simp]: "runs [] opts s s"
  by (simp add: runs_def)

lemma runs_append:
  assumes "runs F1 opts s s1" and "runs F2 opts s1 s2"
  shows "runs (F1 @ F2) opts s s2"
proof -
  have "reaches ([] @ F1 @ F2) opts (shift (length ([] :: string)) (s\<lparr>instructionPointer := 0\<rparr>))
          (shift (length ([] :: string)) (s1\<lparr>instructionPointer := length F1\<rparr>))"
    using assms(1) unfolding runs_def by (rule reaches_context)
  then have 1: "reaches (F1 @ F2) opts (s\<lparr>instructionPointer := 0\<rparr>)
                  (s1\<lparr>instructionPointer := length F1\<rparr>)"
    by simp
  have "reaches (F1 @ F2 @ []) opts (shift (length F1) (s1\<lparr>instructionPointer := 0\<rparr>))
          (shift (length F1) (s2\<lparr>instructionPointer := length F2\<rparr>))"
    using assms(2) unfolding runs_def by (rule reaches_context)
  then have 2: "reaches (F1 @ F2) opts (s1\<lparr>instructionPointer := length F1\<rparr>)
                  (s2\<lparr>instructionPointer := length (F1 @ F2)\<rparr>)"
    by (simp add: shift_def add.commute)
  show ?thesis
    unfolding runs_def using reaches_trans [OF 1 2] .
qed

lemma runs_run:
  "runs F opts s s' \<Longrightarrow>
   \<exists>n. run n F opts (s\<lparr>instructionPointer := 0\<rparr>) = Some (Inr (s'\<lparr>instructionPointer := length F\<rparr>))"
  unfolding runs_def by (erule reaches_run) (simp add: fetch_None_iff)

lemma runs_ip_irrelevant:
  "runs F opts (s\<lparr>instructionPointer := i\<rparr>) (s'\<lparr>instructionPointer := j\<rparr>) = runs F opts s s'"
  by (simp add: runs_def)

lemma runs_moves:
  assumes "dataPointer s = wrap p"
  shows "runs (moves p q) opts s (s\<lparr>dataPointer := wrap q\<rparr>)"
proof -
  have "reaches ([] @ moves p q @ []) opts (s\<lparr>instructionPointer := 0\<rparr>)
          (s\<lparr>instructionPointer := 0\<rparr>\<lparr>dataPointer := wrap q,
              instructionPointer := length ([] :: string) + length (moves p q)\<rparr>)"
    using assms by (intro reaches_moves) simp_all
  then show ?thesis
    by (simp add: runs_def)
qed

lemma runs_plus:
  "runs ''+'' opts s
     (s\<lparr>memory := mem_set (memory s) (dataPointer s)
                     (cell_inc (bits opts) (mem_get (memory s) (dataPointer s)))\<rparr>)"
proof -
  let ?s0 = "s\<lparr>instructionPointer := 0\<rparr>"
  let ?s1 = "s\<lparr>memory := mem_set (memory s) (dataPointer s)
                     (cell_inc (bits opts) (mem_get (memory s) (dataPointer s))),
              instructionPointer := 1\<rparr>"
  have f: "fetch ''+'' (instructionPointer ?s0) = Some CHR ''+''"
    by (simp add: fetch_def)
  have st: "step ''+'' opts CHR ''+'' ?s0 = Inr ?s1"
    by (simp add: step_def Let_def)
  show ?thesis
    unfolding runs_def using reaches_step [OF f st reaches_refl] by simp
qed

lemma runs_minus:
  "runs ''-'' opts s
     (s\<lparr>memory := mem_set (memory s) (dataPointer s)
                     (cell_dec (bits opts) (mem_get (memory s) (dataPointer s)))\<rparr>)"
proof -
  let ?s0 = "s\<lparr>instructionPointer := 0\<rparr>"
  let ?s1 = "s\<lparr>memory := mem_set (memory s) (dataPointer s)
                     (cell_dec (bits opts) (mem_get (memory s) (dataPointer s))),
              instructionPointer := 1\<rparr>"
  have f: "fetch ''-'' (instructionPointer ?s0) = Some CHR ''-''"
    by (simp add: fetch_def)
  have st: "step ''-'' opts CHR ''-'' ?s0 = Inr ?s1"
    by (simp add: step_def Let_def)
  show ?thesis
    unfolding runs_def using reaches_step [OF f st reaches_refl] by simp
qed

lemma runs_clear:
  assumes "mem_get (memory s) (dataPointer s) = Num v" and "0 < bits opts"
  shows "\<exists>s'. runs ''[-]'' opts s s' \<and> dataPointer s' = dataPointer s
          \<and> outputText s' = outputText s \<and> inputPointer s' = inputPointer s
          \<and> mem_get (memory s') = (mem_get (memory s))(dataPointer s := Num 0)"
proof -
  let ?s0 = "s\<lparr>instructionPointer := 0\<rparr>"
  have "\<exists>s'. reaches ''[-]'' opts ?s0 s' \<and> instructionPointer s' = 3
          \<and> dataPointer s' = dataPointer ?s0 \<and> outputText s' = outputText ?s0
          \<and> inputPointer s' = inputPointer ?s0
          \<and> mem_get (memory s') = (mem_get (memory ?s0))(dataPointer ?s0 := Num 0)"
    using assms by (intro clear_standalone [where v = v]) simp_all
  then obtain s' where
    r: "reaches ''[-]'' opts ?s0 s'" and i: "instructionPointer s' = 3"
    and p: "dataPointer s' = dataPointer s" "outputText s' = outputText s"
      "inputPointer s' = inputPointer s"
      "mem_get (memory s') = (mem_get (memory s))(dataPointer s := Num 0)"
    by auto
  have "s'\<lparr>instructionPointer := length ''[-]''\<rparr> = s'"
    using i by (cases s') simp
  then have "runs ''[-]'' opts s s'"
    using r by (simp add: runs_def)
  then show ?thesis
    using p by blast
qed

section \<open>Loops\<close>

lemma scanBackward_passes:
  "passes_back (rev X) d = Some d' \<Longrightarrow> 0 < d \<Longrightarrow>
   scanBackward (A @ X @ C) (length A + length X) d = scanBackward (A @ X @ C) (length A) d'"
proof (induction X arbitrary: C d rule: rev_induct)
  case Nil
  then show ?case by simp
next
  case (snoc x Y)
  let ?d1 = "if x = CHR '']'' then d + 1 else if x = CHR ''['' then d - 1 else d"
  from snoc.prems have d1: "?d1 \<noteq> 0" and rest: "passes_back (rev Y) ?d1 = Some d'"
    by (auto simp: Let_def split: if_splits)
  obtain d0 where d: "d = Suc d0"
    using snoc.prems(2) by (cases d) auto
  have f: "fetch (A @ (Y @ [x]) @ C) (length A + length Y) = Some x"
    using fetch_middle [of "A @ Y" x C] by simp
  have "scanBackward (A @ (Y @ [x]) @ C) (length A + length (Y @ [x])) d
      = scanBackward (A @ (Y @ [x]) @ C) (Suc (length A + length Y)) (Suc d0)"
    by (simp add: d)
  also have "\<dots> = scanBackward (A @ (Y @ [x]) @ C) (length A + length Y) ?d1"
    using f by (simp add: d)
  also have "\<dots> = scanBackward (A @ Y @ x # C) (length A + length Y) ?d1"
    by simp
  also have "\<dots> = scanBackward (A @ Y @ x # C) (length A) d'"
    using d1 by (intro snoc.IH [OF rest]) simp
  finally show ?case
    by simp
qed

lemma scanBackward_skip:
  assumes "passes_back (rev X) 1 = Some 1"
  shows "scanBackward (A @ CHR ''['' # X @ C) (Suc (length A + length X)) 1 = Some (length A)"
proof -
  let ?code = "A @ CHR ''['' # X @ C"
  have "scanBackward ((A @ ''['') @ X @ C) (length (A @ ''['') + length X) 1
      = scanBackward ((A @ ''['') @ X @ C) (length (A @ ''['')) 1"
    using assms by (intro scanBackward_passes) simp_all
  then have "scanBackward ?code (Suc (length A + length X)) 1
      = scanBackward ?code (Suc (length A)) (Suc 0)"
    by simp
  moreover have "fetch ?code (length A) = Some CHR ''[''"
    using fetch_middle [of A "CHR ''[''" "X @ C"] by simp
  ultimately show ?thesis
    by simp
qed

lemma reaches_after_first_step:
  assumes "reaches code opts s s'" and "s \<noteq> s'"
    and "fetch code (instructionPointer s) = Some c" and "step code opts c s = Inr s1"
  shows "reaches code opts s1 s'"
proof -
  from assms(1) obtain n where n: "exec code opts n s = Some s'"
    by (auto simp: reaches_def)
  with assms(2) obtain m where "n = Suc m"
    by (cases n) auto
  with n assms(3,4) have "exec code opts m s1 = Some s'"
    by simp
  then show ?thesis
    by (auto simp: reaches_def)
qed

lemma length_loop_code [simp]: "length (loop_code B) = length B + 2"
  by (simp add: loop_code_def)

lemma runs_loop_skip:
  assumes "mem_get (memory s) (dataPointer s) = Num 0" and "passes B 1 = Some 1"
  shows "runs (loop_code B) opts s s"
proof -
  let ?s0 = "s\<lparr>instructionPointer := 0\<rparr>"
  have scan: "scanForward (loop_code B) 0 1 = Some (length B + 1)"
    using scanForward_skip [OF assms(2), of "[]" "[]"] by (simp add: loop_code_def)
  have f: "fetch (loop_code B) (instructionPointer ?s0) = Some CHR ''[''"
    by (simp add: loop_code_def fetch_def)
  have st: "step (loop_code B) opts CHR ''['' ?s0 = Inr (s\<lparr>instructionPointer := length B + 2\<rparr>)"
    using assms(1) scan by (simp add: step_def Let_def)
  show ?thesis
    unfolding runs_def using reaches_step [OF f st reaches_refl] by simp
qed

lemma runs_loop_body:
  assumes nz: "mem_get (memory s) (dataPointer s) \<noteq> Num 0" and body: "runs B opts s s1"
  shows "reaches (loop_code B) opts (s\<lparr>instructionPointer := 0\<rparr>)
           (s1\<lparr>instructionPointer := length B + 1\<rparr>)"
proof -
  let ?s0 = "s\<lparr>instructionPointer := 0\<rparr>"
  have f: "fetch (loop_code B) (instructionPointer ?s0) = Some CHR ''[''"
    by (simp add: loop_code_def fetch_def)
  have st: "step (loop_code B) opts CHR ''['' ?s0 = Inr (s\<lparr>instructionPointer := 1\<rparr>)"
    using nz by (simp add: step_def Let_def)
  have "reaches (''['' @ B @ '']'') opts (shift (length ''['') (s\<lparr>instructionPointer := 0\<rparr>))
          (shift (length ''['') (s1\<lparr>instructionPointer := length B\<rparr>))"
    using body unfolding runs_def by (rule reaches_context)
  then have "reaches (loop_code B) opts (s\<lparr>instructionPointer := 1\<rparr>)
               (s1\<lparr>instructionPointer := length B + 1\<rparr>)"
    by (simp add: shift_def loop_code_def)
  then show ?thesis
    using reaches_step [OF f st] by simp
qed

lemma runs_loop_last:
  assumes nz: "mem_get (memory s) (dataPointer s) \<noteq> Num 0" and body: "runs B opts s s1"
    and z: "mem_get (memory s1) (dataPointer s1) = Num 0"
  shows "runs (loop_code B) opts s s1"
proof -
  let ?s1 = "s1\<lparr>instructionPointer := length B + 1\<rparr>"
  have f: "fetch (loop_code B) (instructionPointer ?s1) = Some CHR '']''"
    using fetch_middle [of "CHR ''['' # B" "CHR '']''" "[]"] by (simp add: loop_code_def)
  have st: "step (loop_code B) opts CHR '']'' ?s1 = Inr (s1\<lparr>instructionPointer := length B + 2\<rparr>)"
    using z by (simp add: step_def Let_def)
  have "reaches (loop_code B) opts ?s1 (s1\<lparr>instructionPointer := length B + 2\<rparr>)"
    using reaches_step [OF f st reaches_refl] .
  then show ?thesis
    unfolding runs_def using reaches_trans [OF runs_loop_body [OF nz body]] by simp
qed

lemma runs_loop_more:
  assumes nz: "mem_get (memory s) (dataPointer s) \<noteq> Num 0" and body: "runs B opts s s1"
    and nz1: "mem_get (memory s1) (dataPointer s1) \<noteq> Num 0"
    and pb: "passes_back (rev B) 1 = Some 1"
    and rest: "runs (loop_code B) opts s1 s2"
  shows "runs (loop_code B) opts s s2"
proof -
  let ?s1 = "s1\<lparr>instructionPointer := length B + 1\<rparr>"
  let ?t = "s1\<lparr>instructionPointer := 1\<rparr>"
  have f: "fetch (loop_code B) (instructionPointer ?s1) = Some CHR '']''"
    using fetch_middle [of "CHR ''['' # B" "CHR '']''" "[]"] by (simp add: loop_code_def)
  have scan: "scanBackward (loop_code B) (Suc (length B)) 1 = Some 0"
    using scanBackward_skip [OF pb, of "[]" "'']''"] by (simp add: loop_code_def)
  have st: "step (loop_code B) opts CHR '']'' ?s1 = Inr ?t"
    using nz1 scan by (simp add: step_def Let_def)
  have f0: "fetch (loop_code B) (instructionPointer (s1\<lparr>instructionPointer := 0\<rparr>)) = Some CHR ''[''"
    by (simp add: loop_code_def fetch_def)
  have st0: "step (loop_code B) opts CHR ''['' (s1\<lparr>instructionPointer := 0\<rparr>) = Inr ?t"
    using nz1 by (simp add: step_def Let_def)
  have ne: "s1\<lparr>instructionPointer := 0\<rparr> \<noteq> s2\<lparr>instructionPointer := length (loop_code B)\<rparr>"
  proof
    assume "s1\<lparr>instructionPointer := 0\<rparr> = s2\<lparr>instructionPointer := length (loop_code B)\<rparr>"
    then have "instructionPointer (s1\<lparr>instructionPointer := 0\<rparr>)
             = instructionPointer (s2\<lparr>instructionPointer := length (loop_code B)\<rparr>)"
      by (rule arg_cong)
    then show False
      by simp
  qed
  have "reaches (loop_code B) opts ?t (s2\<lparr>instructionPointer := length (loop_code B)\<rparr>)"
    using reaches_after_first_step [OF rest [unfolded runs_def] ne f0 st0] .
  then have "reaches (loop_code B) opts ?s1 (s2\<lparr>instructionPointer := length (loop_code B)\<rparr>)"
    using reaches_step [OF f st] by blast
  then show ?thesis
    unfolding runs_def using reaches_trans [OF runs_loop_body [OF nz body]] by blast
qed

lemma runs_counter_loop:
  assumes step: "\<And>x s. J (Suc x) s \<Longrightarrow> \<exists>s1. runs B opts s s1 \<and> J x s1"
    and cnt: "\<And>x s. J x s \<Longrightarrow> mem_get (memory s) (dataPointer s) = Num x"
    and fw: "passes B 1 = Some 1" and bw: "passes_back (rev B) 1 = Some 1"
    and start: "J x s"
  shows "\<exists>s'. runs (loop_code B) opts s s' \<and> J 0 s'"
  using start
proof (induction x arbitrary: s)
  case 0
  then show ?case
    using runs_loop_skip [OF cnt [OF 0] fw] by blast
next
  case (Suc x)
  from step [OF Suc.prems] obtain s1 where b: "runs B opts s s1" and j: "J x s1"
    by blast
  have nz: "mem_get (memory s) (dataPointer s) \<noteq> Num 0"
    using cnt [OF Suc.prems] by simp
  show ?case
  proof (cases x)
    case 0
    then have "mem_get (memory s1) (dataPointer s1) = Num 0"
      using cnt [OF j] by simp
    then show ?thesis
      using runs_loop_last [OF nz b] j 0 by blast
  next
    case (Suc x')
    then have nz1: "mem_get (memory s1) (dataPointer s1) \<noteq> Num 0"
      using cnt [OF j] by simp
    from Suc.IH [OF j] obtain s' where "runs (loop_code B) opts s1 s'" and "J 0 s'"
      by blast
    then show ?thesis
      using runs_loop_more [OF nz b nz1 bw] by blast
  qed
qed

lemma passes_back_append:
  "passes_back (X @ Y) d = (case passes_back X d of None \<Rightarrow> None | Some d' \<Rightarrow> passes_back Y d')"
  by (induction X arbitrary: d) (auto simp: Let_def)

lemma passes_back_replicate:
  "c \<noteq> CHR ''['' \<Longrightarrow> c \<noteq> CHR '']'' \<Longrightarrow> 0 < d \<Longrightarrow> passes_back (replicate k c) d = Some d"
  by (induction k) (auto simp: Let_def)

lemma rev_moves [simp]: "rev (moves p q) = moves p q"
  by (simp add: moves_def)

lemma passes_back_moves: "0 < d \<Longrightarrow> passes_back (moves p q) d = Some d"
  by (simp add: moves_def passes_back_replicate)

section \<open>Moving a value from one cell to others\<close>

lemma runs_moves_plus:
  assumes "dataPointer s = wrap p"
  shows "\<exists>s'. runs (moves p q @ ''+'') opts s s' \<and> dataPointer s' = wrap q
          \<and> outputText s' = outputText s \<and> inputPointer s' = inputPointer s
          \<and> mem_get (memory s')
              = (mem_get (memory s))(wrap q := cell_inc (bits opts) (mem_get (memory s) (wrap q)))"
proof -
  let ?s1 = "s\<lparr>dataPointer := wrap q\<rparr>"
  let ?s2 = "?s1\<lparr>memory := mem_set (memory ?s1) (dataPointer ?s1)
                     (cell_inc (bits opts) (mem_get (memory ?s1) (dataPointer ?s1)))\<rparr>"
  have "runs (moves p q @ ''+'') opts s ?s2"
    using runs_append [OF runs_moves [OF assms] runs_plus] .
  moreover have "mem_get (memory ?s2)
      = (mem_get (memory s))(wrap q := cell_inc (bits opts) (mem_get (memory s) (wrap q)))"
    by (simp add: mem_get_mem_set_fun)
  ultimately show ?thesis
    by (intro exI [of _ ?s2]) simp
qed

lemma runs_moves_minus:
  assumes "dataPointer s = wrap p"
  shows "\<exists>s'. runs (moves p q @ ''-'') opts s s' \<and> dataPointer s' = wrap q
          \<and> outputText s' = outputText s \<and> inputPointer s' = inputPointer s
          \<and> mem_get (memory s')
              = (mem_get (memory s))(wrap q := cell_dec (bits opts) (mem_get (memory s) (wrap q)))"
proof -
  let ?s1 = "s\<lparr>dataPointer := wrap q\<rparr>"
  let ?s2 = "?s1\<lparr>memory := mem_set (memory ?s1) (dataPointer ?s1)
                     (cell_dec (bits opts) (mem_get (memory ?s1) (dataPointer ?s1)))\<rparr>"
  have "runs (moves p q @ ''-'') opts s ?s2"
    using runs_append [OF runs_moves [OF assms] runs_minus] .
  moreover have "mem_get (memory ?s2)
      = (mem_get (memory s))(wrap q := cell_dec (bits opts) (mem_get (memory s) (wrap q)))"
    by (simp add: mem_get_mem_set_fun)
  ultimately show ?thesis
    by (intro exI [of _ ?s2]) simp
qed

lemma cell_inc_Num: "0 < b \<Longrightarrow> cell_inc b (Num v) = Num (Suc v mod b)"
  by (simp add: cell_inc_def js_mod_def)

lemma cell_dec_Num: "Suc x < b \<Longrightarrow> cell_dec b (Num (Suc x)) = Num x"
  by (simp add: cell_dec_def js_mod_def)

lemma drain_body_step:
  assumes "drain_inv opts s0 k t X y (Suc x) s" and "X < bits opts" and "wrap t \<noteq> wrap k"
  shows "\<exists>s1. runs (drain_body k t) opts s s1 \<and> drain_inv opts s0 k t X y x s1"
proof -
  from assms(1) have dp: "dataPointer s = wrap k" and le: "Suc x \<le> X"
    and o: "outputText s = outputText s0" "inputPointer s = inputPointer s0"
    and m: "mem_get (memory s)
         = (mem_get (memory s0))(wrap k := Num (Suc x),
              wrap t := Num ((y + (X - Suc x)) mod bits opts))"
    by (simp_all add: drain_inv_def)
  from runs_moves_plus [OF dp, of t opts] obtain s1 where
    r1: "runs (moves k t @ ''+'') opts s s1" and dp1: "dataPointer s1 = wrap t"
    and o1: "outputText s1 = outputText s" "inputPointer s1 = inputPointer s"
    and m1: "mem_get (memory s1)
              = (mem_get (memory s))(wrap t := cell_inc (bits opts) (mem_get (memory s) (wrap t)))"
    by blast
  from runs_moves_minus [OF dp1, of k opts] obtain s2 where
    r2: "runs (moves t k @ ''-'') opts s1 s2" and dp2: "dataPointer s2 = wrap k"
    and o2: "outputText s2 = outputText s1" "inputPointer s2 = inputPointer s1"
    and m2: "mem_get (memory s2)
              = (mem_get (memory s1))(wrap k := cell_dec (bits opts) (mem_get (memory s1) (wrap k)))"
    by blast
  have b: "0 < bits opts" "Suc x < bits opts"
    using assms(2) le by simp_all
  have e: "Suc ((y + (X - Suc x)) mod bits opts) mod bits opts = (y + (X - x)) mod bits opts"
    using le by (simp add: mod_Suc_eq Suc_diff_Suc)
  have "runs (drain_body k t) opts s s2"
    using runs_append [OF r1 r2] by (simp add: drain_body_def)
  moreover have "mem_get (memory s2)
      = (mem_get (memory s0))(wrap k := Num x, wrap t := Num ((y + (X - x)) mod bits opts))"
    using assms(3) b e by (auto simp: m2 m1 m cell_inc_Num cell_dec_Num fun_eq_iff)
  ultimately show ?thesis
    using dp2 o o1 o2 le by (intro exI [of _ s2]) (simp add: drain_inv_def)
qed

lemma runs_drain_loop:
  assumes dp: "dataPointer s = wrap k" and k: "mem_get (memory s) (wrap k) = Num X"
    and X: "X < bits opts" and t: "mem_get (memory s) (wrap t) = Num y" and y: "y < bits opts"
    and ne: "wrap t \<noteq> wrap k"
  shows "\<exists>s'. runs (loop_code (drain_body k t)) opts s s' \<and> dataPointer s' = wrap k
          \<and> outputText s' = outputText s \<and> inputPointer s' = inputPointer s
          \<and> mem_get (memory s')
              = (mem_get (memory s))(wrap k := Num 0, wrap t := Num ((y + X) mod bits opts))"
proof -
  have start: "drain_inv opts s k t X y X s"
    using dp k t y ne by (auto simp: drain_inv_def fun_eq_iff)
  have "\<exists>s'. runs (loop_code (drain_body k t)) opts s s' \<and> drain_inv opts s k t X y 0 s'"
  proof (rule runs_counter_loop [where J = "drain_inv opts s k t X y", OF _ _ _ _ start])
    show "\<exists>s1. runs (drain_body k t) opts s' s1 \<and> drain_inv opts s k t X y x s1"
      if "drain_inv opts s k t X y (Suc x) s'" for x s'
      using drain_body_step [OF that X ne] .
    show "mem_get (memory s') (dataPointer s') = Num x" if "drain_inv opts s k t X y x s'" for x s'
      using that ne by (simp add: drain_inv_def)
    show "passes (drain_body k t) 1 = Some 1"
      by (simp add: drain_body_def passes_append passes_moves Let_def)
    show "passes_back (rev (drain_body k t)) 1 = Some 1"
      by (simp add: drain_body_def passes_back_append passes_back_moves Let_def)
  qed
  then show ?thesis
    by (auto simp: drain_inv_def)
qed

lemma copy_body_step:
  assumes "copy_inv opts s0 k t1 t2 X y1 y2 (Suc x) s" and "X < bits opts"
    and "wrap t1 \<noteq> wrap k" and "wrap t2 \<noteq> wrap k" and "wrap t1 \<noteq> wrap t2"
  shows "\<exists>s1. runs (copy_body k t1 t2) opts s s1 \<and> copy_inv opts s0 k t1 t2 X y1 y2 x s1"
proof -
  from assms(1) have dp: "dataPointer s = wrap k" and le: "Suc x \<le> X"
    and o: "outputText s = outputText s0" "inputPointer s = inputPointer s0"
    and m: "mem_get (memory s)
         = (mem_get (memory s0))(wrap k := Num (Suc x),
              wrap t1 := Num ((y1 + (X - Suc x)) mod bits opts),
              wrap t2 := Num ((y2 + (X - Suc x)) mod bits opts))"
    by (simp_all add: copy_inv_def)
  from runs_moves_plus [OF dp, of t1 opts] obtain s1 where
    r1: "runs (moves k t1 @ ''+'') opts s s1" and dp1: "dataPointer s1 = wrap t1"
    and o1: "outputText s1 = outputText s" "inputPointer s1 = inputPointer s"
    and m1: "mem_get (memory s1)
              = (mem_get (memory s))(wrap t1 := cell_inc (bits opts) (mem_get (memory s) (wrap t1)))"
    by blast
  from runs_moves_plus [OF dp1, of t2 opts] obtain s2 where
    r2: "runs (moves t1 t2 @ ''+'') opts s1 s2" and dp2: "dataPointer s2 = wrap t2"
    and o2: "outputText s2 = outputText s1" "inputPointer s2 = inputPointer s1"
    and m2: "mem_get (memory s2)
              = (mem_get (memory s1))(wrap t2 := cell_inc (bits opts) (mem_get (memory s1) (wrap t2)))"
    by blast
  from runs_moves_minus [OF dp2, of k opts] obtain s3 where
    r3: "runs (moves t2 k @ ''-'') opts s2 s3" and dp3: "dataPointer s3 = wrap k"
    and o3: "outputText s3 = outputText s2" "inputPointer s3 = inputPointer s2"
    and m3: "mem_get (memory s3)
              = (mem_get (memory s2))(wrap k := cell_dec (bits opts) (mem_get (memory s2) (wrap k)))"
    by blast
  have b: "0 < bits opts" "Suc x < bits opts"
    using assms(2) le by simp_all
  have e: "Suc ((y + (X - Suc x)) mod bits opts) mod bits opts = (y + (X - x)) mod bits opts" for y
    using le by (simp add: mod_Suc_eq Suc_diff_Suc)
  have "runs (copy_body k t1 t2) opts s s3"
    using runs_append [OF r1 runs_append [OF r2 r3]] by (simp add: copy_body_def)
  moreover have "mem_get (memory s3)
      = (mem_get (memory s0))(wrap k := Num x,
              wrap t1 := Num ((y1 + (X - x)) mod bits opts),
              wrap t2 := Num ((y2 + (X - x)) mod bits opts))"
    using assms(3,4,5) b e by (auto simp: m3 m2 m1 m cell_inc_Num cell_dec_Num fun_eq_iff)
  ultimately show ?thesis
    using dp3 o o1 o2 o3 le by (intro exI [of _ s3]) (simp add: copy_inv_def)
qed

lemma runs_copy_loop:
  assumes dp: "dataPointer s = wrap k" and k: "mem_get (memory s) (wrap k) = Num X"
    and X: "X < bits opts"
    and t1: "mem_get (memory s) (wrap t1) = Num y1" and y1: "y1 < bits opts"
    and t2: "mem_get (memory s) (wrap t2) = Num y2" and y2: "y2 < bits opts"
    and ne: "wrap t1 \<noteq> wrap k" "wrap t2 \<noteq> wrap k" "wrap t1 \<noteq> wrap t2"
  shows "\<exists>s'. runs (loop_code (copy_body k t1 t2)) opts s s' \<and> dataPointer s' = wrap k
          \<and> outputText s' = outputText s \<and> inputPointer s' = inputPointer s
          \<and> mem_get (memory s')
              = (mem_get (memory s))(wrap k := Num 0,
                   wrap t1 := Num ((y1 + X) mod bits opts),
                   wrap t2 := Num ((y2 + X) mod bits opts))"
proof -
  have start: "copy_inv opts s k t1 t2 X y1 y2 X s"
    using dp k t1 t2 y1 y2 ne by (auto simp: copy_inv_def fun_eq_iff)
  have "\<exists>s'. runs (loop_code (copy_body k t1 t2)) opts s s'
          \<and> copy_inv opts s k t1 t2 X y1 y2 0 s'"
  proof (rule runs_counter_loop [where J = "copy_inv opts s k t1 t2 X y1 y2", OF _ _ _ _ start])
    show "\<exists>s1. runs (copy_body k t1 t2) opts s' s1 \<and> copy_inv opts s k t1 t2 X y1 y2 x s1"
      if "copy_inv opts s k t1 t2 X y1 y2 (Suc x) s'" for x s'
      using copy_body_step [OF that X ne] .
    show "mem_get (memory s') (dataPointer s') = Num x"
      if "copy_inv opts s k t1 t2 X y1 y2 x s'" for x s'
      using that ne by (simp add: copy_inv_def)
    show "passes (copy_body k t1 t2) 1 = Some 1"
      by (simp add: copy_body_def passes_append passes_moves Let_def)
    show "passes_back (rev (copy_body k t1 t2)) 1 = Some 1"
      by (simp add: copy_body_def passes_back_append passes_back_moves Let_def)
  qed
  then show ?thesis
    by (auto simp: copy_inv_def)
qed

section \<open>The code of \<open>copy\<close>\<close>

lemma runs_copy_code:
  assumes dp: "dataPointer s = wrap p" and c: "mem_get (memory s) (wrap c) = Num X"
    and X: "X < bits opts"
    and z1: "mem_get (memory s) (wrap l1) = Num 0" and z2: "mem_get (memory s) (wrap l2) = Num 0"
    and ne: "wrap l1 \<noteq> wrap c" "wrap l2 \<noteq> wrap c" "wrap l1 \<noteq> wrap l2"
  shows "\<exists>s'. runs (copy_code p c l1 l2) opts s s' \<and> dataPointer s' = wrap l1
          \<and> outputText s' = outputText s \<and> inputPointer s' = inputPointer s
          \<and> mem_get (memory s') = (mem_get (memory s))(wrap l2 := Num X)"
proof -
  have b: "0 < bits opts"
    using X by simp
  let ?s1 = "s\<lparr>dataPointer := wrap c\<rparr>"
  have r1: "runs (moves p c) opts s ?s1"
    using runs_moves [OF dp] .
  have "\<exists>s'. runs (loop_code (copy_body c l1 l2)) opts ?s1 s' \<and> dataPointer s' = wrap c
          \<and> outputText s' = outputText ?s1 \<and> inputPointer s' = inputPointer ?s1
          \<and> mem_get (memory s')
              = (mem_get (memory ?s1))(wrap c := Num 0,
                   wrap l1 := Num ((0 + X) mod bits opts),
                   wrap l2 := Num ((0 + X) mod bits opts))"
    using c X z1 z2 ne b by (intro runs_copy_loop) simp_all
  then obtain s2 where r2: "runs (loop_code (copy_body c l1 l2)) opts ?s1 s2"
    and dp2: "dataPointer s2 = wrap c"
    and o2: "outputText s2 = outputText s" "inputPointer s2 = inputPointer s"
    and m2: "mem_get (memory s2)
              = (mem_get (memory s))(wrap c := Num 0, wrap l1 := Num X, wrap l2 := Num X)"
    using X by auto
  let ?s3 = "s2\<lparr>dataPointer := wrap l1\<rparr>"
  have r3: "runs (moves c l1) opts s2 ?s3"
    using runs_moves [OF dp2] .
  have "\<exists>s'. runs (loop_code (drain_body l1 c)) opts ?s3 s' \<and> dataPointer s' = wrap l1
          \<and> outputText s' = outputText ?s3 \<and> inputPointer s' = inputPointer ?s3
          \<and> mem_get (memory s')
              = (mem_get (memory ?s3))(wrap l1 := Num 0, wrap c := Num ((0 + X) mod bits opts))"
    using X ne b by (intro runs_drain_loop) (simp_all add: m2)
  then obtain s4 where r4: "runs (loop_code (drain_body l1 c)) opts ?s3 s4"
    and dp4: "dataPointer s4 = wrap l1"
    and o4: "outputText s4 = outputText s" "inputPointer s4 = inputPointer s"
    and m4: "mem_get (memory s4)
              = (mem_get (memory s2))(wrap l1 := Num 0, wrap c := Num X)"
    using X o2 by auto
  have "mem_get (memory s4) (dataPointer s4) = Num 0"
    using ne by (simp add: dp4 m4)
  from runs_clear [OF this b] obtain s5 where r5: "runs ''[-]'' opts s4 s5"
    and dp5: "dataPointer s5 = wrap l1"
    and o5: "outputText s5 = outputText s" "inputPointer s5 = inputPointer s"
    and m5: "mem_get (memory s5) = (mem_get (memory s4))(wrap l1 := Num 0)"
    using dp4 o4 by auto
  have "runs (copy_code p c l1 l2) opts s s5"
    unfolding copy_code_def
    using runs_append [OF r1 runs_append [OF r2 runs_append [OF r3 runs_append [OF r4 r5]]]] .
  moreover have "mem_get (memory s5) = (mem_get (memory s))(wrap l2 := Num X)"
    using ne c z1 by (auto simp: m5 m4 m2 fun_eq_iff)
  ultimately show ?thesis
    using dp5 o5 by blast
qed

section \<open>The allocator\<close>

lemma map_fst_map_set:
  "map fst (map_set k v m) = (if k \<in> fst ` set m then map fst m else map fst m @ [k])"
  by (induction m) force+

lemma length_map_set:
  "length (map_set k v m) = (if k \<in> fst ` set m then length m else Suc (length m))"
  by (induction m) force+

lemma map_of_map_set_fun: "map_of (map_set k v m) = (map_of m)(k \<mapsto> v)"
  by (induction m) (auto simp: fun_eq_iff)

lemma dense_keys: "dense m \<Longrightarrow> fst ` set m = {a. 0 \<le> a \<and> a < int (length m)}"
proof -
  assume "dense m"
  then have "set (map fst m) = set (map int [0..<length m])"
    by (simp add: dense_def)
  then have "fst ` set m = int ` {0..<length m}"
    by simp
  also have "\<dots> = {a. 0 \<le> a \<and> a < int (length m)}"
  proof (rule set_eqI)
    fix a :: int
    show "a \<in> int ` {0..<length m} \<longleftrightarrow> a \<in> {a. 0 \<le> a \<and> a < int (length m)}"
    proof
      assume "a \<in> int ` {0..<length m}"
      then show "a \<in> {a. 0 \<le> a \<and> a < int (length m)}"
        by auto
    next
      assume "a \<in> {a. 0 \<le> a \<and> a < int (length m)}"
      then have "a = int (nat a)" and "nat a \<in> {0..<length m}"
        by auto
      then show "a \<in> int ` {0..<length m}"
        by (metis imageI)
    qed
  qed
  finally show ?thesis .
qed

lemma dense_map_set:
  assumes "dense m" and "0 \<le> k" and "k \<le> int (length m)"
  shows "dense (map_set k v m)"
proof (cases "k \<in> fst ` set m")
  case True
  then show ?thesis
    using assms(1) by (simp add: dense_def map_fst_map_set length_map_set)
next
  case False
  then have "k = int (length m)"
    using assms dense_keys [OF assms(1)] by auto
  then show ?thesis
    using False assms(1) by (simp add: dense_def map_fst_map_set length_map_set)
qed

lemma findEmptyLocation_loop_cases:
  "(findEmptyLocation_loop m l, Freed) \<in> set m
   \<or> (Freed \<notin> snd ` set m
       \<and> findEmptyLocation_loop m l = (if m = [] then l else fst (last m)) + 1)"
proof (induction m arbitrary: l)
  case Nil
  then show ?case by simp
next
  case (Cons e m)
  obtain k u where e: "e = (k, u)"
    by (cases e)
  show ?case
  proof (cases "u = Freed")
    case True
    then show ?thesis
      by (simp add: e)
  next
    case False
    then show ?thesis
      using Cons.IH [of k] by (auto simp: e)
  qed
qed

lemma dense_distinct: "dense m \<Longrightarrow> distinct (map fst m)"
  by (simp add: dense_def distinct_map inj_on_def)

lemma dense_last: "dense m \<Longrightarrow> m \<noteq> [] \<Longrightarrow> fst (last m) = int (length m) - 1"
proof -
  assume d: "dense m" and ne: "m \<noteq> []"
  have "fst (last m) = last (map fst m)"
    using ne by (simp add: last_map)
  also have "\<dots> = last (map int [0..<length m])"
    using d by (simp add: dense_def)
  also have "\<dots> = int (length m) - 1"
    using ne by (cases m rule: rev_cases) (auto simp: last_map)
  finally show ?thesis .
qed

lemma findEmptyLocation_fresh:
  assumes "dense (memoryUsage st)"
  shows "\<not> live st (findEmptyLocation st)"
    and "0 \<le> findEmptyLocation st"
    and "findEmptyLocation st \<le> int (length (memoryUsage st))"
proof -
  let ?m = "memoryUsage st"
  let ?l = "findEmptyLocation st"
  from findEmptyLocation_loop_cases [of ?m "- 1"]
  have c: "(?l, Freed) \<in> set ?m \<or> (Freed \<notin> snd ` set ?m \<and> ?l = int (length ?m))"
    using dense_last [OF assms] by (auto simp: findEmptyLocation_def)
  have k: "fst ` set ?m = {a. 0 \<le> a \<and> a < int (length ?m)}"
    using dense_keys [OF assms] .
  show "\<not> live st ?l"
  proof (cases "(?l, Freed) \<in> set ?m")
    case True
    then have "map_of ?m ?l = Some Freed"
      using dense_distinct [OF assms] by simp
    then show ?thesis
      by (simp add: live_def)
  next
    case False
    then have "?l = int (length ?m)"
      using c by simp
    then have "?l \<notin> fst ` set ?m"
      using k by simp
    then have "map_of ?m ?l = None"
      by (simp add: map_of_eq_None_iff)
    then show ?thesis
      by (simp add: live_def)
  qed
  have "?l \<in> fst ` set ?m \<or> ?l = int (length ?m)"
    using c by (auto intro: rev_image_eqI)
  then have "0 \<le> ?l \<and> ?l \<le> int (length ?m)"
    using k by auto
  then show "0 \<le> ?l" and "?l \<le> int (length ?m)"
    by simp_all
qed

lemma live_setUsage:
  "live (setUsage l u st) a \<longleftrightarrow> (if a = l then u \<noteq> Freed else live st a)"
  by (simp add: live_def setUsage_def map_of_map_set_fun)

lemma live_in_range:
  assumes "dense (memoryUsage st)" and "live st a"
  shows "0 \<le> a \<and> a < int (length (memoryUsage st))"
proof -
  from assms(2) have "a \<in> fst ` set (memoryUsage st)"
    by (auto simp: live_def dest: map_of_SomeD intro: rev_image_eqI)
  then show ?thesis
    using dense_keys [OF assms(1)] by simp
qed

lemma wrap_nat: "0 \<le> a \<Longrightarrow> a < int memorySize \<Longrightarrow> wrap a = nat a"
  by (simp add: wrap_def)

lemma tape_ok_live_wrap:
  "tape_ok opts st s \<Longrightarrow> live st a \<Longrightarrow> wrap a = nat a \<and> int (nat a) = a"
  using live_in_range [of st a] by (auto simp: tape_ok_def wrap_nat)

lemma tape_ok_allocate:
  assumes ok: "tape_ok opts st s" and l: "l = findEmptyLocation st"
    and room: "length (memoryUsage (setUsage l u st)) \<le> memorySize"
  shows "tape_ok opts (setUsage l u st) s" and "\<not> live st l" and "wrap l = nat l"
    and "int (nat l) = l" and "mem_get (memory s) (wrap l) = Num 0"
proof -
  have d: "dense (memoryUsage st)"
    using ok by (simp add: tape_ok_def)
  note f = findEmptyLocation_fresh [OF d, folded l]
  show nl: "\<not> live st l"
    using f(1) .
  have lt: "l < int memorySize"
  proof (cases "l \<in> fst ` set (memoryUsage st)")
    case True
    then show ?thesis
      using dense_keys [OF d] ok by (simp add: tape_ok_def)
  next
    case False
    then show ?thesis
      using room f(3) by (simp add: setUsage_def length_map_set)
  qed
  show w: "wrap l = nat l"
    using f(2) lt by (simp add: wrap_nat)
  show i: "int (nat l) = l"
    using f(2) by simp
  show "mem_get (memory s) (wrap l) = Num 0"
    using ok nl w i by (simp add: tape_ok_def)
  have "dense (memoryUsage (setUsage l u st))"
    using dense_map_set [OF d f(2) f(3)] by (simp add: setUsage_def)
  moreover have "\<forall>a. \<not> live (setUsage l u st) (int a) \<longrightarrow> mem_get (memory s) a = Num 0"
    using ok nl i by (auto simp: tape_ok_def live_setUsage split: if_splits)
  ultimately show "tape_ok opts (setUsage l u st) s"
    using ok room by (simp add: tape_ok_def setUsage_def)
qed

lemma tape_ok_free:
  assumes ok: "tape_ok opts st s" and lv: "live st l"
    and z: "mem_get (memory s) (wrap l) = Num 0"
  shows "tape_ok opts (setUsage l Freed st) s"
proof -
  have d: "dense (memoryUsage st)"
    using ok by (simp add: tape_ok_def)
  note r = live_in_range [OF d lv]
  have k: "l \<in> fst ` set (memoryUsage st)"
    using dense_keys [OF d] r by simp
  have "dense (memoryUsage (setUsage l Freed st))"
    using dense_map_set [OF d, of l Freed] r by (simp add: setUsage_def)
  moreover have "length (memoryUsage (setUsage l Freed st)) = length (memoryUsage st)"
    using k by (simp add: setUsage_def length_map_set)
  moreover have "\<forall>a. \<not> live (setUsage l Freed st) (int a) \<longrightarrow> mem_get (memory s) a = Num 0"
    using ok z tape_ok_live_wrap [OF ok lv]
    by (auto simp: tape_ok_def live_setUsage split: if_splits)
  ultimately show ?thesis
    using ok by (simp add: tape_ok_def setUsage_def)
qed

lemma tape_ok_emit [simp]: "tape_ok opts (emit x st) s = tape_ok opts st s"
  by (simp add: tape_ok_def emit_def live_def)

lemma live_emit [simp]: "live (emit x st) a = live st a"
  by (simp add: emit_def live_def)

lemma live_moveTo [simp]: "live (moveTo q st) a = live st a"
  by (simp add: moveTo_def emit_def live_def Let_def)

lemma tape_ok_moveTo:
  "tape_ok opts st s \<Longrightarrow> tape_ok opts (moveTo q st) (s\<lparr>dataPointer := wrap q\<rparr>)"
  by (simp add: tape_ok_def moveTo_def emit_def live_def Let_def)

text \<open>
  A run that leaves the tracked pointer where the compiler has it, and changes only live
  cells or writes zero, keeps the tape consistent.
\<close>

lemma tape_ok_update:
  assumes ok: "tape_ok opts st s"
    and mu: "memoryUsage st' = memoryUsage st"
    and dp: "dataPointer s' = wrap (pointerLocation st')"
    and num: "\<forall>a. \<exists>v<bits opts. mem_get (memory s') a = Num v"
    and ch: "\<forall>a. \<not> live st (int a) \<longrightarrow> mem_get (memory s') a = Num 0"
  shows "tape_ok opts st' s'"
  using assms by (simp add: tape_ok_def live_def)

section \<open>What a subtraction leaves allocated\<close>

lemma live_cong: "memoryUsage st' = memoryUsage st \<Longrightarrow> live st' a = live st a"
  by (simp add: live_def)

lemma temporaries_cong:
  "memoryUsage st' = memoryUsage st \<Longrightarrow> temporaries st' = temporaries st"
  by (simp add: temporaries_def)

lemma temporaries_live: "a \<in> temporaries st \<Longrightarrow> live st a"
  by (simp add: temporaries_def live_def)

lemma moveTo_moves:
  "moveTo q st
     = st\<lparr>pointerLocation := q, brainfuckCode := brainfuckCode st @ moves (pointerLocation st) q\<rparr>"
  by (simp add: moveTo_def moves_def emit_def Let_def)

lemma moves_same [simp]: "moves p p = []"
  by (simp add: moves_def)

lemma copy_result:
  fixes cell :: int and st :: cstate
  defines "l1 \<equiv> findEmptyLocation st"
  defines "l2 \<equiv> findEmptyLocation (setUsage l1 Temporary st)"
  shows "fst (copy cell st) = l2"
    and "brainfuckCode (snd (copy cell st))
           = brainfuckCode st @ copy_code (pointerLocation st) cell l1 l2"
    and "pointerLocation (snd (copy cell st)) = l1"
    and "memoryUsage (snd (copy cell st))
           = memoryUsage (setUsage l1 Freed (setUsage l2 Temporary (setUsage l1 Temporary st)))"
    and "variables (snd (copy cell st)) = variables st"
    and "functionsMap (snd (copy cell st)) = functionsMap st"
  unfolding l1_def l2_def
  by (simp_all add: copy_def Let_def steps_def clearCell_def emit_def setUsage_def moveTo_moves
      copy_code_def loop_code_def copy_body_def drain_body_def findEmptyLocation_def)

lemma dense_setUsage_fresh:
  "dense (memoryUsage st) \<Longrightarrow> dense (memoryUsage (setUsage (findEmptyLocation st) u st))"
  using findEmptyLocation_fresh(2,3) [of st] by (simp add: setUsage_def dense_map_set)

lemma dense_setUsage_live:
  "dense (memoryUsage st) \<Longrightarrow> live st l \<Longrightarrow> dense (memoryUsage (setUsage l u st))"
  using live_in_range [of st l] by (simp add: setUsage_def dense_map_set)

text \<open>
  The allocator's side of \<open>copy\<close>: the scratch cell is free again afterwards, and the cell
  returned is a new temporary cell.
\<close>

lemma copy_allocates_one_cell:
  assumes d: "dense (memoryUsage st)"
  shows "dense (memoryUsage (snd (copy c st)))"
    and "\<not> live st (fst (copy c st))"
    and "live (snd (copy c st)) x \<longleftrightarrow> x = fst (copy c st) \<or> live st x"
    and "temporaries (snd (copy c st)) = insert (fst (copy c st)) (temporaries st)"
proof -
  define l1 where "l1 = findEmptyLocation st"
  define st2 where "st2 = setUsage l1 Temporary st"
  define l2 where "l2 = findEmptyLocation st2"
  define st3 where "st3 = setUsage l2 Temporary st2"
  define st4 where "st4 = setUsage l1 Freed st3"
  note r = copy_result [of c st, folded l1_def, folded st2_def, folded l2_def, folded st3_def,
      folded st4_def]
  have n1: "\<not> live st l1"
    using findEmptyLocation_fresh(1) [OF d] by (simp add: l1_def)
  have d2: "dense (memoryUsage st2)"
    unfolding st2_def l1_def using d by (rule dense_setUsage_fresh)
  have n2: "\<not> live st2 l2"
    using findEmptyLocation_fresh(1) [OF d2] by (simp add: l2_def)
  then have l12: "l2 \<noteq> l1" and nl2: "\<not> live st l2"
    by (auto simp: st2_def live_setUsage split: if_splits)
  have d3: "dense (memoryUsage st3)"
    unfolding st3_def l2_def using d2 by (rule dense_setUsage_fresh)
  have "live st3 l1"
    using l12 by (simp add: st3_def st2_def live_setUsage)
  then have d4: "dense (memoryUsage st4)"
    unfolding st4_def using d3 by (intro dense_setUsage_live)
  show "dense (memoryUsage (snd (copy c st)))"
    using d4 by (simp add: r(4))
  show "\<not> live st (fst (copy c st))"
    using nl2 by (simp add: r(1))
  have "live (snd (copy c st)) x = live st4 x"
    by (rule live_cong) (simp add: r(4))
  then show "live (snd (copy c st)) x \<longleftrightarrow> x = fst (copy c st) \<or> live st x"
    using n1 l12 by (auto simp: r(1) st4_def st3_def st2_def live_setUsage)
  have "temporaries (snd (copy c st)) = temporaries st4"
    by (rule temporaries_cong) (simp add: r(4))
  then show "temporaries (snd (copy c st)) = insert (fst (copy c st)) (temporaries st)"
    using n1 l12 temporaries_live [of l1 st]
    by (auto simp: r(1) st4_def st3_def st2_def)
qed


lemma finite_temporaries: "finite (temporaries st)"
proof (rule finite_subset)
  show "temporaries st \<subseteq> fst ` set (memoryUsage st)"
    by (auto simp: temporaries_def dest!: map_of_SomeD intro: rev_image_eqI)
  show "finite (fst ` set (memoryUsage st))"
    by simp
qed

lemma map_of_setUsage: "map_of (memoryUsage (setUsage l u st)) = (map_of (memoryUsage st))(l \<mapsto> u)"
  by (simp add: setUsage_def map_of_map_set_fun)

text \<open>
  C6, amended.  Let the allocator map list the addresses \<open>0, \<dots>, n - 1\<close> in this order (the
  states the compiler reaches as long as no unsafe block has deleted entries).  Both
  revisions of \<open>subtract\<close> return the first free address and receive the copies of their
  operands in two further cells; the three cells are distinct and none was occupied before.

  The \<open>subtract\<close> of \<open>src/src/compiler/index.ts\<close> does not free the copies: after it the
  temporary cells are those before and these three, three more than before, two of them the
  copies.  The map is again of the shape above, so this holds for every subtraction of a
  sequence.

  The \<open>subtract\<close> of the later revision emits the same code followed by the moves to each
  copy and \<open>[-]\<close>, and marks both copies free, as \<open>add\<close> does: after it both copies are
  recorded free and the temporary cells are those before and the result cell, one more than
  before.
\<close>

theorem subtract_leaves_or_frees_its_copies:
  assumes "dense (memoryUsage st)"
  shows "case subtract_copies a b st of (copiedA, copiedB) \<Rightarrow>
           fst (subtract_index a b st) = findEmptyLocation st
         \<and> fst (subtract a b st) = findEmptyLocation st
         \<and> distinct [findEmptyLocation st, copiedA, copiedB]
         \<and> \<not> live st (findEmptyLocation st) \<and> \<not> live st copiedA \<and> \<not> live st copiedB
         \<and> temporaries (snd (subtract_index a b st))
             = temporaries st \<union> {findEmptyLocation st, copiedA, copiedB}
         \<and> card (temporaries (snd (subtract_index a b st))) = card (temporaries st) + 3
         \<and> dense (memoryUsage (snd (subtract_index a b st)))
         \<and> brainfuckCode (snd (subtract a b st))
             = brainfuckCode (snd (subtract_index a b st))
               @ moves copiedB copiedA @ ''[-]'' @ moves copiedA copiedB @ ''[-]''
         \<and> map_of (memoryUsage (snd (subtract a b st))) copiedA = Some Freed
         \<and> map_of (memoryUsage (snd (subtract a b st))) copiedB = Some Freed
         \<and> temporaries (snd (subtract a b st)) = insert (findEmptyLocation st) (temporaries st)
         \<and> card (temporaries (snd (subtract a b st))) = card (temporaries st) + 1
         \<and> dense (memoryUsage (snd (subtract a b st)))"
proof -
  define t where "t = findEmptyLocation st"
  define st1 where "st1 = setUsage t Temporary st"
  define cA where "cA = fst (copy a st1)"
  define st2 where "st2 = snd (copy a st1)"
  define cB where "cB = fst (copy b st2)"
  define st3 where "st3 = snd (copy b st2)"
  have sc: "subtract_copies a b st = (cA, cB)"
    by (simp add: subtract_copies_def Let_def split_beta t_def st1_def cA_def st2_def cB_def)
  have old: "fst (subtract_index a b st) = t"
    "memoryUsage (snd (subtract_index a b st)) = memoryUsage st3"
    by (simp_all add: subtract_index_def Let_def split_beta steps_def moveTo_moves emit_def
        t_def st1_def cA_def st2_def cB_def st3_def)
  have new: "fst (subtract a b st) = t"
    "memoryUsage (snd (subtract a b st))
       = memoryUsage (setUsage cB Freed (setUsage cA Freed st3))"
    by (simp_all add: subtract_def Let_def split_beta steps_def moveTo_moves emit_def
        clearCell_def setUsage_def t_def st1_def cA_def st2_def cB_def st3_def)
  have code: "brainfuckCode (snd (subtract a b st))
       = brainfuckCode (snd (subtract_index a b st)) @ moves cB cA @ ''[-]'' @ moves cA cB @ ''[-]''"
    by (simp add: subtract_def subtract_index_def Let_def split_beta steps_def moveTo_moves
        emit_def clearCell_def setUsage_def t_def st1_def cA_def st2_def cB_def st3_def)
  have nt: "\<not> live st t"
    using findEmptyLocation_fresh(1) [OF assms] by (simp add: t_def)
  have d1: "dense (memoryUsage st1)"
    unfolding st1_def t_def using assms by (rule dense_setUsage_fresh)
  note c1 = copy_allocates_one_cell [OF d1, of a, folded cA_def st2_def]
  note c2 = copy_allocates_one_cell [OF c1(1), of b, folded cB_def st3_def]
  have nA: "cA \<noteq> t" "\<not> live st cA"
    using c1(2) by (auto simp: st1_def live_setUsage split: if_splits)
  have "\<not> live st1 cB" and AB: "cB \<noteq> cA"
    using c2(2) c1(3) [of cB] by auto
  then have nB: "cB \<noteq> t" "\<not> live st cB"
    by (auto simp: st1_def live_setUsage split: if_splits)
  have T3: "temporaries st3 = temporaries st \<union> {t, cA, cB}"
    by (auto simp: c2(4) c1(4) st1_def)
  have notin: "t \<notin> temporaries st" "cA \<notin> temporaries st" "cB \<notin> temporaries st"
    using nt nA(2) nB(2) temporaries_live by blast+
  have Told: "temporaries (snd (subtract_index a b st)) = temporaries st \<union> {t, cA, cB}"
    using temporaries_cong [OF old(2)] T3 by simp
  have "temporaries st \<union> {t, cA, cB} = insert t (insert cA (insert cB (temporaries st)))"
    by auto
  then have cold: "card (temporaries (snd (subtract_index a b st))) = card (temporaries st) + 3"
    using notin nA(1) nB(1) AB finite_temporaries [of st] by (simp add: Told)
  have Tnew: "temporaries (snd (subtract a b st)) = insert t (temporaries st)"
    using temporaries_cong [OF new(2)] T3 notin nA(1) nB(1) by auto
  have cnew: "card (temporaries (snd (subtract a b st))) = card (temporaries st) + 1"
    using notin finite_temporaries [of st] by (simp add: Tnew)
  have lA: "live st3 cA" and lB: "live st3 cB"
    using c2(3) [of cA] c2(3) [of cB] c1(3) [of cA] by auto
  have dA: "dense (memoryUsage (setUsage cA Freed st3))"
    using c2(1) lA by (rule dense_setUsage_live)
  have "live (setUsage cA Freed st3) cB"
    using lB AB by (simp add: live_setUsage)
  with dA have "dense (memoryUsage (setUsage cB Freed (setUsage cA Freed st3)))"
    by (rule dense_setUsage_live)
  then have dnew: "dense (memoryUsage (snd (subtract a b st)))"
    by (simp add: new(2))
  have dold: "dense (memoryUsage (snd (subtract_index a b st)))"
    using c2(1) by (simp add: old(2))
  have fA: "map_of (memoryUsage (snd (subtract a b st))) cA = Some Freed"
    and fB: "map_of (memoryUsage (snd (subtract a b st))) cB = Some Freed"
    using AB by (simp_all add: new(2) map_of_setUsage)
  show ?thesis
    using old(1) new(1) nA nB AB nt Told cold dold code fA fB Tnew cnew dnew
    by (simp add: sc t_def [symmetric])
qed


theorem subtract_leaves_or_frees_its_copies_witness:
  "dense (memoryUsage two_variables)
   \<and> findEmptyLocation two_variables = 2
   \<and> temporaries (snd (subtract_index 0 1 two_variables))
       = temporaries two_variables
           \<union> {2, fst (subtract_copies 0 1 two_variables), snd (subtract_copies 0 1 two_variables)}
   \<and> card (temporaries (snd (subtract_index 0 1 two_variables)))
       = card (temporaries two_variables) + 3
   \<and> temporaries (snd (subtract 0 1 two_variables)) = insert 2 (temporaries two_variables)
   \<and> card (temporaries (snd (subtract 0 1 two_variables))) = card (temporaries two_variables) + 1"
proof -
  have d: "dense (memoryUsage two_variables)"
    by (simp add: two_variables_def dense_def)
  have f: "findEmptyLocation two_variables = 2"
    by (simp add: two_variables_def findEmptyLocation_def)
  show ?thesis
    using subtract_leaves_or_frees_its_copies [OF d, of 0 1, unfolded split_beta f] d f
    by blast
qed

section \<open>A call inside an if statement\<close>

text \<open>
  A call in the body of an \<open>if\<close>, in
  \<open>define x number  define d number  set d 1  function f { show 1 }  if d { $f }\<close>:
  the condition \<open>d\<close> is bound to address 1 and holds 1.  The call compiles \<open>f\<close> with
  \<open>reset = true\<close>, which sets the tracked pointer to 0 although the tape pointer is on
  cell 1.  The \<open>if\<close> then emits one \<open>>\<close> to reach the condition cell, so its closing
  \<open>[-]\<close> clears cell 2: the body runs once and shows 1, and the condition cell still holds
  1 after the statement.
\<close>

lemma call_in_if_leaves_condition_set:
  "map_sum id (findVariableLocation ''d'' 0)
     (compile_tokens 1 before_the_if (resetState initial_state)) = Inr (Some 1)
   \<and> compile 1 call_in_if_program = Inr ''>[-]+[[-]+.>[-]]''
   \<and> run 100 ''>[-]+[[-]+.>[-]]'' test_options start_state
       = Some (Inr \<lparr>memory = [(1, Num 1)], dataPointer = 2, instructionPointer = 16,
                     outputText = utf16 ''1'', inputPointer = 0\<rparr>)"
  by (simp add: compile_eval run_eval call_in_if_program_def before_the_if_def test_options_def
      cong: let_weak_cong prod.case_cong_weak)

section \<open>Pointer tracking\<close>

lemma track_append:
  "track (A @ B) p stk = (case track A p stk of None \<Rightarrow> None | Some (q, stk') \<Rightarrow> track B q stk')"
  by (induction A arbitrary: p stk) (auto split: list.splits)

lemma track_replicate_right: "track (replicate n CHR ''>'') p stk = Some (p + int n, stk)"
  by (induction n arbitrary: p) auto

lemma track_replicate_left: "track (replicate n CHR ''<'') p stk = Some (p - int n, stk)"
  by (induction n arbitrary: p) auto

lemma track_moves: "track (moves p q) p stk = Some (q, stk)"
  by (simp add: moves_def track_replicate_right track_replicate_left)

text \<open>Tracking does not depend on where the pointer starts nor on what the stack holds below.\<close>

lemma track_shift:
  "track X p S = Some (q, S') \<Longrightarrow>
   track X (p + k) (map (\<lambda>x. x + k) S @ T) = Some (q + k, map (\<lambda>x. x + k) S' @ T)"
proof (induction X arbitrary: p S)
  case Nil
  then show ?case by simp
next
  case (Cons c X)
  show ?case
  proof (cases "c = CHR '']''")
    case True
    with Cons.prems obtain S2 where S: "S = p # S2" and t: "track X p S2 = Some (q, S')"
      by (auto split: list.splits if_splits)
    show ?thesis
      using Cons.IH [OF t] True S by simp
  next
    case False
    then show ?thesis
      using Cons.prems Cons.IH [of "p + 1" S] Cons.IH [of "p - 1" S]
        Cons.IH [of p "p # S"] Cons.IH [of p S]
      by (auto simp: algebra_simps split: if_splits)
  qed
qed

lemma track_neutral: "track X 0 [] = Some (0, []) \<Longrightarrow> track X p stk = Some (p, stk)"
  using track_shift [of X 0 "[]" 0 "[]" p stk] by simp

lemma track_prefix:
  "track (A @ B) p stk = Some r \<Longrightarrow> \<exists>q stk'. track A p stk = Some (q, stk')"
  by (auto simp: track_append split: option.splits)

text \<open>The closing bracket that pops the lowest of the entries \<open>S\<close> pushed since.\<close>

lemma match_forward:
  "track R q (S @ stk0) = Some (pf, stkf) \<Longrightarrow> S \<noteq> [] \<Longrightarrow> length stkf \<le> length stk0 \<Longrightarrow>
   \<exists>X C. R = X @ CHR '']'' # C \<and> passes X (length S) = Some 1
          \<and> track X q (S @ stk0) = Some (last S, last S # stk0)
          \<and> track C (last S) stk0 = Some (pf, stkf)"
proof (induction R arbitrary: q S)
  case Nil
  then have "length stkf = length S + length stk0"
    by auto
  then show ?case
    using Nil.prems(2,3) by (cases S) auto
next
  case (Cons c R)
  consider (opn) "c = CHR ''[''" | (cls) "c = CHR '']''" | (right) "c = CHR ''>''"
    | (left) "c = CHR ''<''"
    | (other) "c \<noteq> CHR ''[''" "c \<noteq> CHR '']''" "c \<noteq> CHR ''>''" "c \<noteq> CHR ''<''"
    by blast
  then show ?case
  proof cases
    case opn
    with Cons.prems have t: "track R q ((q # S) @ stk0) = Some (pf, stkf)"
      by simp
    from Cons.IH [OF t _ Cons.prems(3)] obtain X C where
      "R = X @ CHR '']'' # C" "passes X (length (q # S)) = Some 1"
      "track X q ((q # S) @ stk0) = Some (last (q # S), last (q # S) # stk0)"
      "track C (last (q # S)) stk0 = Some (pf, stkf)"
      by auto
    then show ?thesis
      using opn Cons.prems(2)
      by (intro exI [of _ "c # X"] exI [of _ C]) (simp add: Let_def)
  next
    case cls
    obtain t S' where S: "S = t # S'"
      using Cons.prems(2) by (cases S) auto
    with cls Cons.prems(1) have tq: "t = q" and t: "track R q (S' @ stk0) = Some (pf, stkf)"
      by (auto split: if_splits)
    show ?thesis
    proof (cases "S' = []")
      case True
      then show ?thesis
        using cls S tq t by (intro exI [of _ "[]"] exI [of _ R]) simp
    next
      case False
      from Cons.IH [OF t False Cons.prems(3)] obtain X C where
        "R = X @ CHR '']'' # C" "passes X (length S') = Some 1"
        "track X q (S' @ stk0) = Some (last S', last S' # stk0)"
        "track C (last S') stk0 = Some (pf, stkf)"
        by auto
      then show ?thesis
        using cls S tq False
        by (intro exI [of _ "c # X"] exI [of _ C]) (simp add: Let_def)
    qed
  next
    case right
    with Cons.prems have t: "track R (q + 1) (S @ stk0) = Some (pf, stkf)"
      by simp
    from Cons.IH [OF t Cons.prems(2,3)] obtain X C where
      "R = X @ CHR '']'' # C" "passes X (length S) = Some 1"
      "track X (q + 1) (S @ stk0) = Some (last S, last S # stk0)"
      "track C (last S) stk0 = Some (pf, stkf)"
      by auto
    then show ?thesis
      using right Cons.prems(2)
      by (intro exI [of _ "c # X"] exI [of _ C]) (simp add: Let_def)
  next
    case left
    with Cons.prems have t: "track R (q - 1) (S @ stk0) = Some (pf, stkf)"
      by simp
    from Cons.IH [OF t Cons.prems(2,3)] obtain X C where
      "R = X @ CHR '']'' # C" "passes X (length S) = Some 1"
      "track X (q - 1) (S @ stk0) = Some (last S, last S # stk0)"
      "track C (last S) stk0 = Some (pf, stkf)"
      by auto
    then show ?thesis
      using left Cons.prems(2)
      by (intro exI [of _ "c # X"] exI [of _ C]) (simp add: Let_def)
  next
    case other
    with Cons.prems have t: "track R q (S @ stk0) = Some (pf, stkf)"
      by simp
    from Cons.IH [OF t Cons.prems(2,3)] obtain X C where
      "R = X @ CHR '']'' # C" "passes X (length S) = Some 1"
      "track X q (S @ stk0) = Some (last S, last S # stk0)"
      "track C (last S) stk0 = Some (pf, stkf)"
      by auto
    then show ?thesis
      using other Cons.prems(2)
      by (intro exI [of _ "c # X"] exI [of _ C]) (simp add: Let_def)
  qed
qed

text \<open>The opening bracket that pushed the entry \<open>n\<close> of the stack.\<close>

lemma match_backward:
  "track P p [] = Some (q, stk) \<Longrightarrow> n < length stk \<Longrightarrow>
   \<exists>A X. P = A @ CHR ''['' # X \<and> track A p [] = Some (stk ! n, drop (Suc n) stk)
          \<and> passes_back (rev X) (Suc n) = Some 1"
proof (induction P arbitrary: q stk n rule: rev_induct)
  case Nil
  then show ?case by simp
next
  case (snoc c P)
  from snoc.prems(1) obtain q' stk' where
    P: "track P p [] = Some (q', stk')" and c: "track [c] q' stk' = Some (q, stk)"
    by (auto simp: track_append split: option.splits)
  consider (opn) "c = CHR ''[''" | (cls) "c = CHR '']''"
    | (other) "c \<noteq> CHR ''[''" "c \<noteq> CHR '']''"
    by blast
  then show ?case
  proof cases
    case opn
    with c have stk: "stk = q' # stk'"
      by auto
    show ?thesis
    proof (cases n)
      case 0
      then show ?thesis
        using opn P stk by (intro exI [of _ P] exI [of _ "[]"]) simp
    next
      case (Suc m)
      then have "m < length stk'"
        using snoc.prems(2) stk by simp
      from snoc.IH [OF P this] obtain A X where
        "P = A @ CHR ''['' # X" "track A p [] = Some (stk' ! m, drop (Suc m) stk')"
        "passes_back (rev X) (Suc m) = Some 1"
        by blast
      then show ?thesis
        using opn stk Suc
        by (intro exI [of _ A] exI [of _ "X @ [c]"]) (simp add: Let_def)
    qed
  next
    case cls
    with c obtain t where stk': "stk' = t # stk"
      by (auto split: list.splits if_splits)
    then have "Suc n < length stk'"
      using snoc.prems(2) by simp
    from snoc.IH [OF P this] obtain A X where
      "P = A @ CHR ''['' # X" "track A p [] = Some (stk' ! Suc n, drop (Suc (Suc n)) stk')"
      "passes_back (rev X) (Suc (Suc n)) = Some 1"
      by blast
    then show ?thesis
      using cls stk'
      by (intro exI [of _ A] exI [of _ "X @ [c]"]) (simp add: Let_def)
  next
    case other
    with c have stk: "stk' = stk"
      by (auto split: if_splits)
    from snoc.IH [OF P [unfolded stk] snoc.prems(2)] obtain A X where
      "P = A @ CHR ''['' # X" "track A p [] = Some (stk ! n, drop (Suc n) stk)"
      "passes_back (rev X) (Suc n) = Some 1"
      by blast
    then show ?thesis
      using other
      by (intro exI [of _ A] exI [of _ "X @ [c]"]) (simp add: Let_def)
  qed
qed

text \<open>
  Every instruction keeps the tape pointer where the tracking of the code read so far has
  it: a jump lands behind the matching bracket, where the on_track pointer is the same.
\<close>

lemma on_track_step:
  assumes whole: "track code p [] = Some (pf, [])"
    and inv: "on_track code p s"
    and f: "fetch code (instructionPointer s) = Some c"
    and st: "step code opts c s = Inr s'"
  shows "on_track code p s'"
proof -
  define i where "i = instructionPointer s"
  define A where "A = take i code"
  define R where "R = drop (Suc i) code"
  have i: "i < length code" and ci: "code ! i = c"
    using f by (simp_all add: fetch_Some_iff i_def)
  have code: "code = A @ c # R"
    using i ci id_take_nth_drop [of i code] by (simp add: A_def R_def)
  have lA: "length A = i"
    using i by (simp add: A_def)
  from inv obtain q stk where A: "track A p [] = Some (q, stk)" and dp: "dataPointer s = wrap q"
    by (auto simp: on_track_def A_def i_def)
  have rest: "track (c # R) q stk = Some (pf, [])"
    using whole A by (simp add: code track_append)
  have next_prefix: "take (Suc i) code = A @ [c]"
    using lA by (simp add: code)
  have plain: "on_track code p s'"
    if "instructionPointer s' = Suc i" and "dataPointer s' = wrap q'"
      and "track [c] q stk = Some (q', stk')" for q' stk'
    using that i A by (auto simp: on_track_def next_prefix track_append)
  consider (opn) "c = CHR ''[''" | (cls) "c = CHR '']''" | (rgt) "c = CHR ''>''"
    | (lft) "c = CHR ''<''"
    | (oth) "c \<noteq> CHR ''[''" "c \<noteq> CHR '']''" "c \<noteq> CHR ''>''" "c \<noteq> CHR ''<''"
    by blast
  then show ?thesis
  proof cases
    case rgt
    then have "instructionPointer s' = Suc i" "dataPointer s' = wrap (q + 1)"
      using st dp by (auto simp: step_def Let_def i_def wrap_right_Suc)
    then show ?thesis
      using rgt by (intro plain) simp_all
  next
    case lft
    then have "instructionPointer s' = Suc i" "dataPointer s' = wrap (q - 1)"
      using st dp by (auto simp: step_def Let_def i_def wrap_left_Suc)
    then show ?thesis
      using lft by (intro plain) simp_all
  next
    case oth
    then have "instructionPointer s' = Suc i" "dataPointer s' = wrap q"
      using st dp by (auto simp: step_def Let_def i_def split: if_splits)
    then show ?thesis
      using oth by (intro plain) simp_all
  next
    case opn
    show ?thesis
    proof (cases "mem_get (memory s) (dataPointer s) = Num 0")
      case False
      then have "instructionPointer s' = Suc i" "dataPointer s' = wrap q"
        using st dp opn by (auto simp: step_def Let_def i_def)
      then show ?thesis
        using opn by (intro plain) simp_all
    next
      case True
      have "track R q ([q] @ stk) = Some (pf, [])"
        using rest opn by simp
      from match_forward [OF this] obtain X C where
        R: "R = X @ CHR '']'' # C" and pass: "passes X 1 = Some 1"
        and X: "track X q (q # stk) = Some (q, q # stk)"
        by auto
      have code': "code = A @ CHR ''['' # X @ CHR '']'' # C"
        using code opn R by simp
      have "scanForward code (length A) 1 = Some (length A + length X + 1)"
        unfolding code' using pass by (rule scanForward_skip)
      then have ip': "instructionPointer s' = i + length X + 2" and dp': "dataPointer s' = wrap q"
        using st True opn dp lA by (auto simp: step_def Let_def i_def)
      have "take (i + length X + 2) code = A @ CHR ''['' # X @ '']''"
        using lA by (simp add: code')
      then have "track (take (instructionPointer s') code) p [] = Some (q, stk)"
        using A X by (simp add: ip' track_append)
      moreover have "instructionPointer s' \<le> length code"
        using lA by (simp add: ip' code')
      ultimately show ?thesis
        using dp' by (auto simp: on_track_def)
    qed
  next
    case cls
    from rest cls obtain stk' where stk: "stk = q # stk'"
      by (auto split: list.splits if_splits)
    show ?thesis
    proof (cases "mem_get (memory s) (dataPointer s) = Num 0")
      case True
      then have "instructionPointer s' = Suc i" "dataPointer s' = wrap q"
        using st dp cls by (auto simp: step_def Let_def i_def)
      then show ?thesis
        using cls stk by (intro plain) simp_all
    next
      case False
      have "0 < length stk"
        using stk by simp
      from match_backward [OF A this] obtain A' X where
        A': "A = A' @ CHR ''['' # X" and tA': "track A' p [] = Some (q, stk')"
        and pass: "passes_back (rev X) 1 = Some 1"
        using stk by auto
      have code': "code = A' @ CHR ''['' # X @ (CHR '']'' # R)"
        using code cls A' by simp
      have i': "i = Suc (length A' + length X)"
        using lA A' by simp
      have "scanBackward code (Suc (length A' + length X)) 1 = Some (length A')"
        unfolding code' using pass by (rule scanBackward_skip)
      then have ip': "instructionPointer s' = Suc (length A')" and dp': "dataPointer s' = wrap q"
        using st False cls dp i' by (auto simp: step_def Let_def i_def)
      have "take (Suc (length A')) code = A' @ ''[''"
        by (simp add: code')
      then have "track (take (instructionPointer s') code) p [] = Some (q, q # stk')"
        using tA' by (simp add: ip' track_append)
      moreover have "instructionPointer s' \<le> length code"
        by (simp add: ip' code')
      ultimately show ?thesis
        using dp' by (auto simp: on_track_def)
    qed
  qed
qed

lemma on_track_exec:
  "track code p [] = Some (pf, []) \<Longrightarrow> on_track code p s \<Longrightarrow> exec code opts n s = Some s'
     \<Longrightarrow> on_track code p s'"
proof (induction n arbitrary: s)
  case 0
  then show ?case by simp
next
  case (Suc n)
  from Suc.prems(3) obtain c s1 where
    c: "fetch code (instructionPointer s) = Some c"
    and st: "step code opts c s = Inr s1"
    and rest: "exec code opts n s1 = Some s'"
    by (auto split: option.splits sum.splits)
  show ?case
    using Suc.IH [OF Suc.prems(1) on_track_step [OF Suc.prems(1,2) c st] rest] .
qed

text \<open>
  When the tracking of a program succeeds, every run of the program that ends leaves the
  tape pointer where the tracking ends.
\<close>

lemma track_run:
  assumes "track code p [] = Some (pf, [])"
    and "instructionPointer s = 0" and "dataPointer s = wrap p"
    and "run n code opts s = Some (Inr s')"
  shows "dataPointer s' = wrap pf"
proof -
  from run_exec [OF assms(4)] obtain k where
    k: "exec code opts k s = Some s'" and f: "fetch code (instructionPointer s') = None"
    by blast
  have "on_track code p s"
    using assms(2,3) by (simp add: on_track_def)
  from on_track_exec [OF assms(1) this k] obtain q stk where
    "instructionPointer s' \<le> length code"
    "track (take (instructionPointer s') code) p [] = Some (q, stk)" "dataPointer s' = wrap q"
    by (auto simp: on_track_def)
  then show ?thesis
    using f assms(1) by (simp add: fetch_None_iff)
qed

text \<open>A program whose tracking succeeds is balanced.\<close>

lemma track_passes:
  "track X p stk = Some (q, stk') \<Longrightarrow> 0 < k \<Longrightarrow>
   passes X (k + length stk) = Some (k + length stk')"
proof (induction X arbitrary: p stk)
  case Nil
  then show ?case by simp
next
  case (Cons c X)
  show ?case
  proof (cases "c = CHR '']''")
    case True
    with Cons.prems(1) obtain t stk2 where stk: "stk = t # stk2"
      and t: "track X p stk2 = Some (q, stk')"
      by (auto split: list.splits if_splits)
    show ?thesis
      using Cons.IH [OF t Cons.prems(2)] True stk Cons.prems(2) by (simp add: Let_def)
  next
    case False
    then show ?thesis
      using Cons.prems Cons.IH [of "p + 1" stk] Cons.IH [of "p - 1" stk]
        Cons.IH [of p "p # stk"] Cons.IH [of p stk]
      by (auto simp: Let_def split: if_splits)
  qed
qed

lemma track_balanced: "track X p [] = Some (q, []) \<Longrightarrow> balanced X"
  using track_passes [of X p "[]" q "[]" 1] by (simp add: balanced_def)

section \<open>The compiler tracks the pointer\<close>

lemma tracks_refl [simp]: "tracks st stk st stk"
  by (simp add: tracks_def)

lemma tracks_trans: "tracks a s1 b s2 \<Longrightarrow> tracks b s2 c s3 \<Longrightarrow> tracks a s1 c s3"
  by (auto simp: tracks_def track_append)

lemma tracks_step:
  assumes "tracks st stk st1 stk1"
    and "brainfuckCode st2 = brainfuckCode st1 @ x"
    and "track x (pointerLocation st1) stk1 = Some (pointerLocation st2, stk2)"
  shows "tracks st stk st2 stk2"
  using assms by (auto simp: tracks_def track_append)

lemma pointerLocation_emit [simp]: "pointerLocation (emit x st) = pointerLocation st"
  by (simp add: emit_def)

lemma pointerLocation_setUsage [simp]: "pointerLocation (setUsage l u st) = pointerLocation st"
  by (simp add: setUsage_def)

lemma pointerLocation_clearCell [simp]: "pointerLocation (clearCell st) = pointerLocation st"
  by (simp add: clearCell_def)

lemma pointerLocation_moveTo' [simp]: "pointerLocation (moveTo q st) = q"
  by (simp add: moveTo_def emit_def Let_def)

lemma tracks_moveTo: "tracks st stk st1 stk1 \<Longrightarrow> tracks st stk (moveTo q st1) stk1"
  by (erule tracks_step [where x = "moves (pointerLocation st1) q"])
    (simp_all add: brainfuckCode_moveTo track_moves)

lemma tracks_setUsage: "tracks st stk st1 stk1 \<Longrightarrow> tracks st stk (setUsage l u st1) stk1"
  by (erule tracks_step [where x = "[]"]) (simp_all add: setUsage_def)

lemma tracks_open:
  "tracks st stk st1 stk1 \<Longrightarrow> p = pointerLocation st1 \<Longrightarrow> tracks st stk (emit ''['' st1) (p # stk1)"
  by (erule tracks_step [where x = "''[''"]) (simp_all add: emit_def)

lemma tracks_close:
  "tracks st stk st1 (pointerLocation st1 # stk1) \<Longrightarrow> tracks st stk (emit '']'' st1) stk1"
  by (erule tracks_step [where x = "'']''"]) (simp_all add: emit_def)

lemma track_plain:
  "set x \<inter> {CHR ''>'', CHR ''<'', CHR ''['', CHR '']''} = {} \<Longrightarrow> track x p stk = Some (p, stk)"
  by (induction x) auto

lemma tracks_plain:
  "tracks st stk st1 stk1 \<Longrightarrow> set x \<inter> {CHR ''>'', CHR ''<'', CHR ''['', CHR '']''} = {}
     \<Longrightarrow> tracks st stk (emit x st1) stk1"
  by (erule tracks_step [where x = x]) (simp_all add: emit_def track_plain)

lemma tracks_plus: "tracks st stk st1 stk1 \<Longrightarrow> tracks st stk (emit ''+'' st1) stk1"
  by (erule tracks_plain) simp

lemma tracks_minus: "tracks st stk st1 stk1 \<Longrightarrow> tracks st stk (emit ''-'' st1) stk1"
  by (erule tracks_plain) simp

lemma tracks_dot: "tracks st stk st1 stk1 \<Longrightarrow> tracks st stk (emit ''.'' st1) stk1"
  by (erule tracks_plain) simp

lemma tracks_tilde: "tracks st stk st1 stk1 \<Longrightarrow> tracks st stk (emit ''~'' st1) stk1"
  by (erule tracks_plain) simp

lemma tracks_comma: "tracks st stk st1 stk1 \<Longrightarrow> tracks st stk (emit '','' st1) stk1"
  by (erule tracks_plain) simp

lemma tracks_pluses:
  "tracks st stk st1 stk1 \<Longrightarrow> tracks st stk (emit (replicate n CHR ''+'') st1) stk1"
  by (erule tracks_plain) auto

lemma tracks_minuses:
  "tracks st stk st1 stk1 \<Longrightarrow> tracks st stk (emit (replicate n CHR ''-'') st1) stk1"
  by (erule tracks_plain) auto

lemma tracks_clear: "tracks st stk st1 stk1 \<Longrightarrow> tracks st stk (emit ''[-]'' st1) stk1"
  by (erule tracks_step [where x = "''[-]''"]) (simp_all add: emit_def)

lemma tracks_clearCell: "tracks st stk st1 stk1 \<Longrightarrow> tracks st stk (clearCell st1) stk1"
  by (simp add: clearCell_def tracks_clear)

lemma tracks_max: "tracks st stk st1 stk1 \<Longrightarrow> tracks st stk (emit ''[-]-'' st1) stk1"
  by (erule tracks_step [where x = "''[-]-''"]) (simp_all add: emit_def)

lemma tracks_setValue: "tracks st stk st1 stk1 \<Longrightarrow> tracks st stk (setValue v st1) stk1"
  by (cases v) (auto simp: Let_def intro!: tracks_clearCell tracks_pluses tracks_minuses tracks_plus)

lemmas tracks_basic =
  tracks_moveTo tracks_setUsage tracks_open tracks_close tracks_plus tracks_minus tracks_dot
  tracks_tilde tracks_comma tracks_pluses tracks_minuses tracks_clear tracks_clearCell
  tracks_max tracks_setValue

lemma tracks_copy: "tracks st stk st1 stk1 \<Longrightarrow> tracks st stk (snd (copy c st1)) stk1"
  by (auto simp: copy_def Let_def steps_def intro!: tracks_basic)

lemma tracks_add: "tracks st stk st1 stk1 \<Longrightarrow> tracks st stk (snd (add a b st1)) stk1"
  by (auto simp: add_def Let_def steps_def split_beta intro!: tracks_basic tracks_copy)

lemma tracks_subtract: "tracks st stk st1 stk1 \<Longrightarrow> tracks st stk (snd (subtract a b st1)) stk1"
  by (auto simp: subtract_def Let_def steps_def split_beta intro!: tracks_basic tracks_copy)

lemma tracks_drainInto: "tracks st stk st1 stk1 \<Longrightarrow> tracks st stk (drainInto a b st1) stk1"
  by (auto simp: drainInto_def steps_def intro!: tracks_basic)

lemma tracks_decrementTimes:
  "tracks st stk st1 stk1 \<Longrightarrow> tracks st stk (decrementTimes c i st1) stk1"
  by (auto simp: decrementTimes_def intro!: tracks_basic)

lemma tracks_getDynamic_round:
  "tracks st stk st1 stk1 \<Longrightarrow> tracks st stk (getDynamic_round b idx r i st1) stk1"
  by (auto simp: getDynamic_round_def Let_def steps_def split_beta
      intro!: tracks_basic tracks_copy tracks_decrementTimes)

lemma tracks_setDynamic_round:
  "tracks st stk st1 stk1 \<Longrightarrow> tracks st stk (setDynamic_round b idx v i st1) stk1"
  by (auto simp: setDynamic_round_def Let_def steps_def split_beta
      intro!: tracks_basic tracks_copy tracks_decrementTimes)

lemma tracks_fold:
  assumes "\<And>x s. tracks st stk s stk1 \<Longrightarrow> tracks st stk (f x s) stk1"
  shows "tracks st stk st1 stk1 \<Longrightarrow> tracks st stk (fold f xs st1) stk1"
  by (induction xs arbitrary: st1) (auto intro: assms)

lemma tracks_getDynamic_scan:
  "tracks st stk st1 stk1 \<Longrightarrow> tracks st stk (snd (getDynamic_scan b n idx st1)) stk1"
  by (auto simp: getDynamic_scan_def Let_def
      intro!: tracks_fold tracks_getDynamic_round tracks_setUsage)

lemma tracks_evalValue:
  "evalValue v st1 = Inr (l, st2) \<Longrightarrow> tracks st1 stk st2 stk"
  "getVariableValueAtDynamicIndex name e st1 = Inr (l, st2) \<Longrightarrow> tracks st1 stk st2 stk"
proof (induction v st1 and name e st1 arbitrary: l st2 and l st2
    rule: evalValue_getVariableValueAtDynamicIndex.induct)
  case (1 v st)
  then show ?case
    by (auto simp: Let_def steps_def intro!: tracks_basic)
next
  case (2 name idx st)
  then show ?case
    by (auto split: option.splits)
next
  case (3 name idx st)
  then show ?case
    by simp
next
  case (4 left right st)
  from "4.prems" obtain a sa b sb where
    l: "evalValue left st = Inr (a, sa)" and r: "evalValue right sa = Inr (b, sb)"
    and res: "add a b sb = (l, st2)"
    by (auto split: sum.splits prod.splits)
  have "tracks st stk sa stk"
    using "4.IH"(1) l by blast
  moreover have "tracks sa stk sb stk"
    using "4.IH"(2) l r by blast
  moreover have "tracks sb stk st2 stk"
    using tracks_add [of sb stk sb stk a b] res by simp
  ultimately show ?case
    by (blast intro: tracks_trans)
next
  case (5 left right st)
  from "5.prems" obtain a sa b sb where
    l: "evalValue left st = Inr (a, sa)" and r: "evalValue right sa = Inr (b, sb)"
    and res: "subtract a b sb = (l, st2)"
    by (auto split: sum.splits prod.splits)
  have "tracks st stk sa stk"
    using "5.IH"(1) l by blast
  moreover have "tracks sa stk sb stk"
    using "5.IH"(2) l r by blast
  moreover have "tracks sb stk st2 stk"
    using tracks_subtract [of sb stk sb stk a b] res by simp
  ultimately show ?case
    by (blast intro: tracks_trans)
next
  case (6 left right st)
  then show ?case by simp
next
  case (7 left right st)
  then show ?case by simp
next
  case (8 st)
  then show ?case
    by (auto simp: Let_def steps_def intro!: tracks_basic)
next
  case (9 name indexExpr st)
  from "9.prems" obtain info idxCell s1 where
    e: "evalValue indexExpr st = Inr (idxCell, s1)"
    and res: "getDynamic_scan (base info) (len info) idxCell s1 = (l, st2)"
    and info: "lookupVariable name st = Some info"
    by (auto split: option.splits sum.splits prod.splits)
  have "tracks st stk s1 stk"
    using "9.IH" info e by blast
  moreover have "tracks s1 stk st2 stk"
    using tracks_getDynamic_scan [of s1 stk s1 stk "base info" "len info" idxCell] res by simp
  ultimately show ?case
    by (blast intro: tracks_trans)
qed

lemma tracks_setVariableAtDynamicIndex:
  assumes "setVariableAtDynamicIndex name e v st = Inr st'"
  shows "tracks st stk st' stk"
proof -
  from assms obtain info idxCell s1 valueCell s2 where
    e1: "evalValue e st = Inr (idxCell, s1)" and e2: "evalValue v s1 = Inr (valueCell, s2)"
    and info: "lookupVariable name st = Some info"
    by (auto simp: setVariableAtDynamicIndex_def split: option.splits sum.splits prod.splits)
  define s3 where
    "s3 = fold (\<lambda>i. setDynamic_round (base info) idxCell valueCell (int i)) [0..<nat (len info)] s2"
  have "tracks st stk s1 stk"
    using tracks_evalValue(1) e1 by blast
  moreover have "tracks s1 stk s2 stk"
    using tracks_evalValue(1) e2 by blast
  moreover have "tracks s2 stk s3 stk"
    unfolding s3_def by (intro tracks_fold tracks_setDynamic_round) simp_all
  moreover have "tracks s3 stk st' stk"
    using assms e1 e2 info
    by (auto simp: setVariableAtDynamicIndex_def s3_def Let_def steps_def
        split: if_splits intro!: tracks_basic)
  ultimately show ?thesis
    by (blast intro: tracks_trans)
qed

lemma tracks_assignStatic:
  assumes "assignStatic target v st = Inr st'"
  shows "tracks st stk st' stk"
proof (cases v)
  case (LiteralToken l)
  then show ?thesis
    using assms by (auto simp: assignStatic_def steps_def intro!: tracks_basic)
next
  case (VariableToken name idx)
  let ?s1 = "steps [moveTo target, clearCell] st"
  have a: "tracks st stk ?s1 stk"
    by (auto simp: steps_def intro!: tracks_basic)
  define r where
    "r = (case idx of
            IndexNumber k \<Rightarrow>
              (case findVariableLocation name k ?s1 of
                 None \<Rightarrow> Inl (VariableNotDeclared name)
               | Some src \<Rightarrow> Inr (src, ?s1))
          | IndexExpr e \<Rightarrow> evalValue (VariableToken name idx) ?s1)"
  from assms VariableToken have
    "(case r of
        Inl e \<Rightarrow> Inl e
      | Inr (sourceLocation, st2) \<Rightarrow>
          (let (copyLocation, st3) = copy sourceLocation (moveTo sourceLocation st2)
           in Inr (drainInto copyLocation target st3))) = Inr st'"
    by (simp add: assignStatic_def r_def Let_def)
  then obtain src s2 where
    src: "r = Inr (src, s2)"
    and res: "st' = drainInto (fst (copy src (moveTo src s2))) target
                      (snd (copy src (moveTo src s2)))"
    by (cases r) (auto simp: split_beta Let_def)
  have b: "tracks ?s1 stk s2 stk"
    using src tracks_evalValue(1) [of "VariableToken name idx" ?s1 src s2]
    by (cases idx) (auto simp: r_def split: option.splits)
  have c: "tracks s2 stk st' stk"
    unfolding res by (intro tracks_drainInto tracks_copy tracks_moveTo) simp
  show ?thesis
    using a b c by (blast intro: tracks_trans)
next
  case (MathToken opr l r)
  from assms MathToken obtain resultCell s1 where
    e: "evalValue v st = Inr (resultCell, s1)"
    and res: "st' = drainInto resultCell target (steps [moveTo target, clearCell] s1)"
    by (auto simp: assignStatic_def split: sum.splits prod.splits)
  have "tracks st stk s1 stk"
    using tracks_evalValue(1) e by blast
  moreover have "tracks s1 stk st' stk"
    unfolding res by (auto simp: steps_def intro!: tracks_drainInto tracks_basic)
  ultimately show ?thesis
    by (blast intro: tracks_trans)
next
  case MaxToken
  then show ?thesis
    using assms by (auto simp: assignStatic_def steps_def intro!: tracks_basic)
qed

lemma tracks_declareScalar: "tracks st stk (declareScalar name ty st) stk"
  by (auto simp: declareScalar_def Let_def tracks_def setUsage_def)

lemma tracks_variables_update:
  "tracks st stk st1 stk1 \<Longrightarrow> tracks st stk (st1\<lparr>variables := vs\<rparr>) stk1"
  by (simp add: tracks_def)

lemma tracks_declareArray: "tracks st stk (declareArray name ty n st) stk"
  by (auto simp: declareArray_def Let_def steps_def
      intro!: tracks_variables_update tracks_fold tracks_basic)

lemma tracks_unsafeDrain:
  assumes "unsafeDrain sign amount st = Inr st'" and "sign = ''+'' \<or> sign = ''-''"
  shows "tracks st stk st' stk"
proof -
  from assms obtain amountCell s1 up where
    e: "evalValue amount st = Inr (amountCell, s1)"
    and res: "st' = steps [moveTo (fst (copy amountCell s1)), emit ''['', moveTo up, emit sign,
                           moveTo (fst (copy amountCell s1)), emit ''-'', emit '']'']
                      (snd (copy amountCell s1))"
    by (auto simp: unsafeDrain_def Let_def split_beta split: sum.splits prod.splits option.splits)
  have "tracks st stk s1 stk"
    using tracks_evalValue(1) e by blast
  moreover have "tracks s1 stk st' stk"
    unfolding res using assms(2)
    by (auto simp: steps_def intro!: tracks_basic tracks_copy)
  ultimately show ?thesis
    by (blast intro: tracks_trans)
qed

lemma tracks_unsafePointer_update:
  "tracks st stk st1 stk1 \<Longrightarrow> tracks st stk (st1\<lparr>unsafePointerLocation := p\<rparr>) stk1"
  by (simp add: tracks_def)

text \<open>
  The unsafe pointer is moved by \<open>goto\<close> only: the helpers leave it alone, and a token
  list moves it by the sum of its \<open>goto\<close> distances when the \<open>goto\<close>s of every loop
  add up to zero.
\<close>

lemma keeps_refl [simp]: "keeps st st"
  by (simp add: keeps_def)

lemma keeps_trans: "keeps a b \<Longrightarrow> keeps b c \<Longrightarrow> keeps a c"
  by (simp add: keeps_def)

lemma keeps_emit: "keeps st st1 \<Longrightarrow> keeps st (emit s st1)"
  by (simp add: keeps_def emit_def)

lemma keeps_moveTo: "keeps st st1 \<Longrightarrow> keeps st (moveTo l st1)"
  by (simp add: keeps_def emit_def moveTo_def Let_def)

lemma keeps_setUsage: "keeps st st1 \<Longrightarrow> keeps st (setUsage l u st1)"
  by (simp add: keeps_def setUsage_def)

lemma keeps_clearCell: "keeps st st1 \<Longrightarrow> keeps st (clearCell st1)"
  by (simp add: clearCell_def keeps_emit)

lemma keeps_setValue: "keeps st st1 \<Longrightarrow> keeps st (setValue v st1)"
  by (cases v) (auto simp: Let_def intro!: keeps_emit keeps_clearCell)

lemmas keeps_basic = keeps_emit keeps_moveTo keeps_setUsage keeps_clearCell keeps_setValue

lemma keeps_copy: "keeps st st1 \<Longrightarrow> keeps st (snd (copy c st1))"
  by (auto simp: copy_def Let_def steps_def intro!: keeps_basic)

lemma keeps_add: "keeps st st1 \<Longrightarrow> keeps st (snd (add a b st1))"
  by (auto simp: add_def Let_def steps_def split_beta intro!: keeps_basic keeps_copy)

lemma keeps_subtract: "keeps st st1 \<Longrightarrow> keeps st (snd (subtract a b st1))"
  by (auto simp: subtract_def Let_def steps_def split_beta intro!: keeps_basic keeps_copy)

lemma keeps_decrementTimes: "keeps st st1 \<Longrightarrow> keeps st (decrementTimes c i st1)"
  by (auto simp: decrementTimes_def intro!: keeps_basic)

lemma keeps_getDynamic_round:
  "keeps st st1 \<Longrightarrow> keeps st (getDynamic_round b idx r i st1)"
  unfolding getDynamic_round_def Let_def steps_def split_beta
  by (auto intro!: keeps_basic keeps_copy keeps_decrementTimes)

lemma keeps_fold:
  assumes "\<And>x s. keeps st s \<Longrightarrow> keeps st (f x s)"
  shows "keeps st st1 \<Longrightarrow> keeps st (fold f xs st1)"
  by (induction xs arbitrary: st1) (auto intro: assms)


lemma keeps_getDynamic_scan:
  "keeps st st1 \<Longrightarrow> keeps st (snd (getDynamic_scan b n idx st1))"
  by (auto simp: getDynamic_scan_def Let_def
      intro!: keeps_fold keeps_getDynamic_round keeps_setUsage)

lemma keeps_evalValue:
  "evalValue v st1 = Inr (l, st2) \<Longrightarrow> keeps st1 st2"
  "getVariableValueAtDynamicIndex name e st1 = Inr (l, st2) \<Longrightarrow> keeps st1 st2"
proof (induction v st1 and name e st1 arbitrary: l st2 and l st2
    rule: evalValue_getVariableValueAtDynamicIndex.induct)
  case (1 v st)
  then show ?case
    by (auto simp: Let_def steps_def intro!: keeps_basic)
next
  case (2 name idx st)
  then show ?case
    by (auto split: option.splits)
next
  case (3 name idx st)
  then show ?case
    by simp
next
  case (4 left right st)
  from "4.prems" obtain a sa b sb where
    l: "evalValue left st = Inr (a, sa)" and r: "evalValue right sa = Inr (b, sb)"
    and res: "add a b sb = (l, st2)"
    by (auto split: sum.splits prod.splits)
  have "keeps st sa"
    using "4.IH"(1) l by blast
  moreover have "keeps sa sb"
    using "4.IH"(2) l r by blast
  moreover have "keeps sb st2"
    using keeps_add [of sb sb a b] res by simp
  ultimately show ?case
    by (blast intro: keeps_trans)
next
  case (5 left right st)
  from "5.prems" obtain a sa b sb where
    l: "evalValue left st = Inr (a, sa)" and r: "evalValue right sa = Inr (b, sb)"
    and res: "subtract a b sb = (l, st2)"
    by (auto split: sum.splits prod.splits)
  have "keeps st sa"
    using "5.IH"(1) l by blast
  moreover have "keeps sa sb"
    using "5.IH"(2) l r by blast
  moreover have "keeps sb st2"
    using keeps_subtract [of sb sb a b] res by simp
  ultimately show ?case
    by (blast intro: keeps_trans)
next
  case (6 left right st)
  then show ?case by simp
next
  case (7 left right st)
  then show ?case by simp
next
  case (8 st)
  then show ?case
    by (auto simp: Let_def steps_def intro!: keeps_basic)
next
  case (9 name indexExpr st)
  from "9.prems" obtain info idxCell s1 where
    e: "evalValue indexExpr st = Inr (idxCell, s1)"
    and res: "getDynamic_scan (base info) (len info) idxCell s1 = (l, st2)"
    and info: "lookupVariable name st = Some info"
    by (auto split: option.splits sum.splits prod.splits)
  have "keeps st s1"
    using "9.IH" info e by blast
  moreover have "keeps s1 st2"
    using keeps_getDynamic_scan [of s1 s1 "base info" "len info" idxCell] res by simp
  ultimately show ?case
    by (blast intro: keeps_trans)
qed



lemma keeps_unsafeDrain:
  assumes "unsafeDrain sign amount st = Inr st'"
  shows "keeps st st'"
proof -
  from assms obtain amountCell s1 up where
    e: "evalValue amount st = Inr (amountCell, s1)"
    and res: "st' = steps [moveTo (fst (copy amountCell s1)), emit ''['', moveTo up, emit sign,
                           moveTo (fst (copy amountCell s1)), emit ''-'', emit '']'']
                      (snd (copy amountCell s1))"
    by (auto simp: unsafeDrain_def Let_def split_beta split: sum.splits prod.splits option.splits)
  have "keeps st s1"
    using keeps_evalValue(1) e by blast
  moreover have "keeps s1 st'"
    unfolding res by (auto simp: steps_def intro!: keeps_basic keeps_copy)
  ultimately show ?thesis
    by (blast intro: keeps_trans)
qed

lemma unsafePointerLocation_compileUnsafe:
  "compileUnsafe tokens st = Inr st' \<Longrightarrow> list_all tracked_unsafe tokens
     \<Longrightarrow> unsafePointerLocation st'
           = map_option (\<lambda>u. u + sum_list (map goto_shift tokens)) (unsafePointerLocation st)"
  "compileUnsafeToken token st = Inr st' \<Longrightarrow> tracked_unsafe token
     \<Longrightarrow> unsafePointerLocation st'
           = map_option (\<lambda>u. u + goto_shift token) (unsafePointerLocation st)"
proof (induction tokens st and token st arbitrary: st' and st'
    rule: compileUnsafe_compileUnsafeToken.induct)
  case (1 st)
  then show ?case
    by (cases "unsafePointerLocation st") simp_all
next
  case (2 token tokens st)
  from "2.prems" obtain s1 where
    a: "compileUnsafeToken token st = Inr s1" and b: "compileUnsafe tokens s1 = Inr st'"
    by (auto split: sum.splits)
  have t: "tracked_unsafe token" "list_all tracked_unsafe tokens"
    using "2.prems"(2) by simp_all
  have "unsafePointerLocation s1
      = map_option (\<lambda>u. u + goto_shift token) (unsafePointerLocation st)"
    using "2.IH"(1) [OF a t(1)] .
  moreover have "unsafePointerLocation st'
      = map_option (\<lambda>u. u + sum_list (map goto_shift tokens)) (unsafePointerLocation s1)"
    using "2.IH"(2) [OF a b t(2)] .
  ultimately show ?case
    by (cases "unsafePointerLocation st") simp_all
next
  case (3 amount st)
  then show ?case
    using keeps_unsafeDrain [of "''+''" amount st st']
    by (cases "unsafePointerLocation st") (simp_all add: keeps_def)
next
  case (4 amount st)
  then show ?case
    using keeps_unsafeDrain [of "''-''" amount st st']
    by (cases "unsafePointerLocation st") (simp_all add: keeps_def)
next
  case (5 loc st)
  then show ?case
    by (auto simp: Let_def moveTo_def emit_def split: option.splits)
next
  case (6 st)
  then show ?case
    by (auto simp: steps_def moveTo_def emit_def Let_def split: option.splits)
next
  case (7 body st)
  from "7.prems" obtain up s1 where
    up: "unsafePointerLocation st = Some up"
    and b: "compileUnsafe body (steps [moveTo up, emit ''[''] st) = Inr s1"
    and res: "st' = steps [moveTo (unsafePointerOrZero s1), emit '']''] s1"
    by (auto split: option.splits sum.splits)
  have t: "list_all tracked_unsafe body" "sum_list (map goto_shift body) = 0"
    using "7.prems"(2) by simp_all
  have "unsafePointerLocation (steps [moveTo up, emit ''[''] st) = Some up"
    using up by (simp add: steps_def moveTo_def emit_def Let_def)
  then have "unsafePointerLocation s1 = Some up"
    using "7.IH" [OF up b t(1)] t(2) by simp
  then show ?case
    using up by (simp add: res steps_def moveTo_def emit_def Let_def)
next
  case (8 bf st)
  then show ?case
    by (cases "unsafePointerLocation st") (auto simp: emit_def)
qed

lemma tracks_compileUnsafe:
  "compileUnsafe tokens st = Inr st' \<Longrightarrow> list_all tracked_unsafe tokens \<Longrightarrow> tracks st stk st' stk"
  "compileUnsafeToken token st = Inr st' \<Longrightarrow> tracked_unsafe token \<Longrightarrow> tracks st stk st' stk"
proof (induction tokens st and token st arbitrary: st' stk and st' stk
    rule: compileUnsafe_compileUnsafeToken.induct)
  case (1 st)
  then show ?case by simp
next
  case (2 token tokens st)
  from "2.prems" obtain s1 where
    a: "compileUnsafeToken token st = Inr s1" and b: "compileUnsafe tokens s1 = Inr st'"
    by (auto split: sum.splits)
  have "tracks st stk s1 stk"
    using "2.IH"(1) a "2.prems"(2) by simp
  moreover have "tracks s1 stk st' stk"
    using "2.IH"(2) a b "2.prems"(2) by simp
  ultimately show ?case
    by (blast intro: tracks_trans)
next
  case (3 amount st)
  then show ?case
    using tracks_unsafeDrain [of "''+''" amount st st'] by simp
next
  case (4 amount st)
  then show ?case
    using tracks_unsafeDrain [of "''-''" amount st st'] by simp
next
  case (5 loc st)
  then show ?case
    by (auto simp: Let_def split: option.splits
        intro!: tracks_unsafePointer_update tracks_basic)
next
  case (6 st)
  then show ?case
    by (auto simp: steps_def split: option.splits intro!: tracks_basic)
next
  case (7 body st)
  from "7.prems" obtain up s1 where
    up: "unsafePointerLocation st = Some up"
    and b: "compileUnsafe body (steps [moveTo up, emit ''[''] st) = Inr s1"
    and res: "st' = steps [moveTo (unsafePointerOrZero s1), emit '']''] s1"
    by (auto split: option.splits sum.splits)
  have "unsafePointerLocation s1 = Some up"
    using unsafePointerLocation_compileUnsafe(1) [OF b] "7.prems"(2) up
    by (simp add: steps_def moveTo_def emit_def Let_def)
  then have z: "unsafePointerOrZero s1 = up"
    by (simp add: unsafePointerOrZero_def)
  have 1: "tracks st stk (steps [moveTo up, emit ''[''] st) (up # stk)"
    by (auto simp: steps_def intro!: tracks_basic)
  have 2: "tracks (steps [moveTo up, emit ''[''] st) (up # stk) s1 (up # stk)"
    using "7.IH" [OF up b] "7.prems"(2) by simp
  have 3: "tracks s1 (up # stk) st' stk"
    unfolding res z by (auto simp: steps_def intro!: tracks_basic)
  show ?case
    using 1 2 3 by (blast intro: tracks_trans)
next
  case (8 bf st)
  then have n: "track (abstract_text bf) 0 [] = Some (0, [])"
    and res: "st' = emit (abstract_text bf) st"
    by simp_all
  show ?case
    unfolding res using track_neutral [OF n]
    by (intro tracks_step [OF tracks_refl, where x = "abstract_text bf"]) (simp_all add: emit_def)
qed

lemma tracks_reserveUnsafe: "tracks st stk (snd (reserveUnsafe n st)) stk"
  by (auto simp: reserveUnsafe_def Let_def
      intro!: tracks_moveTo tracks_unsafePointer_update tracks_fold tracks_setUsage)

lemma tracks_memoryUsage_update:
  "tracks st stk st1 stk1 \<Longrightarrow> tracks st stk (st1\<lparr>memoryUsage := m\<rparr>) stk1"
  by (simp add: tracks_def)

lemma tracks_releaseUnsafe: "tracks st stk (releaseUnsafe start n st) stk"
  by (auto simp: releaseUnsafe_def Let_def
      intro!: tracks_unsafePointer_update tracks_fold tracks_basic tracks_memoryUsage_update)

lemma tracks_conditionCell:
  "conditionCell c st = Inr (l, st') \<Longrightarrow> tracks st stk st' stk"
  using tracks_evalValue(1) [of c st l st']
  by (auto simp: conditionCell_def split: ValueToken.splits index.splits option.splits)

lemma compile_tracks:
  "compile_tokens fuel code st = Inr st' \<Longrightarrow> list_all tracked_token code
     \<Longrightarrow> tracks st stk st' stk"
  "compile_token fuel token st = Inr st' \<Longrightarrow> tracked_token token \<Longrightarrow> tracks st stk st' stk"
proof (induction fuel code st and fuel token st arbitrary: st' stk and st' stk
    rule: compile_tokens_compile_token.induct)
  case (1 fuel st)
  then show ?case by simp
next
  case (2 fuel token code st)
  from "2.prems" obtain s1 where
    a: "compile_token fuel token st = Inr s1" and b: "compile_tokens fuel code s1 = Inr st'"
    by (auto split: sum.splits)
  have "tracks st stk s1 stk"
    using "2.IH"(1) a "2.prems" by simp
  moreover have "tracks s1 stk st' stk"
    using "2.IH"(2) a b "2.prems" by simp
  ultimately show ?case
    by (blast intro: tracks_trans)
next
  case (3 fuel name ty arr st)
  then show ?case
    by (auto split: option.splits intro: tracks_declareArray tracks_declareScalar)
next
  case (4 fuel name e v st)
  then show ?case
    by (auto intro: tracks_setVariableAtDynamicIndex)
next
  case (5 fuel name k v st)
  then show ?case
    by (auto split: option.splits intro: tracks_assignStatic)
next
  case (6 fuel v st)
  from "6.prems" obtain l s1 where
    e: "evalValue v st = Inr (l, s1)"
    and res: "st' = emit (if showsAsChar v (moveTo l s1) then ''~'' else ''.'') (moveTo l s1)"
    by (auto simp: Let_def split: sum.splits prod.splits)
  have "tracks st stk s1 stk"
    using tracks_evalValue(1) e by blast
  moreover have "tracks s1 stk st' stk"
    unfolding res by (auto intro!: tracks_basic)
  ultimately show ?case
    by (blast intro: tracks_trans)
next
  case (7 fuel condition body st)
  from "7.prems" obtain c s1 s2 where
    cc: "conditionCell condition st = Inr (c, s1)"
    and b: "compile_tokens fuel body (steps [moveTo c, emit ''[''] s1) = Inr s2"
    and res: "st' = steps [moveTo c, emit '']''] s2"
    by (auto split: sum.splits prod.splits)
  have 1: "tracks st stk (steps [moveTo c, emit ''[''] s1) (c # stk)"
    using tracks_conditionCell [OF cc, of stk]
    by (auto simp: steps_def intro!: tracks_basic)
  have 2: "tracks (steps [moveTo c, emit ''[''] s1) (c # stk) s2 (c # stk)"
    using "7.IH" cc b "7.prems" by simp
  have 3: "tracks s2 (c # stk) st' stk"
    unfolding res by (auto simp: steps_def intro!: tracks_basic)
  show ?case
    using 1 2 3 by (blast intro: tracks_trans)
next
  case (8 fuel name st)
  then show ?case
    by (auto simp: steps_def split: option.splits if_splits intro!: tracks_basic)
next
  case (9 fuel condition body st)
  from "9.prems" obtain c s1 s2 where
    cc: "conditionCell condition st = Inr (c, s1)"
    and b: "compile_tokens fuel body (steps [moveTo c, emit ''[''] s1) = Inr s2"
    and res: "st' = steps [moveTo c, clearCell, emit '']''] s2"
    by (auto split: sum.splits prod.splits)
  have 1: "tracks st stk (steps [moveTo c, emit ''[''] s1) (c # stk)"
    using tracks_conditionCell [OF cc, of stk]
    by (auto simp: steps_def intro!: tracks_basic)
  have 2: "tracks (steps [moveTo c, emit ''[''] s1) (c # stk) s2 (c # stk)"
    using "9.IH" cc b "9.prems" by simp
  have 3: "tracks s2 (c # stk) st' stk"
    unfolding res by (auto simp: steps_def intro!: tracks_basic)
  show ?case
    using 1 2 3 by (blast intro: tracks_trans)
next
  case (10 fuel safetySize body st)
  from "10.prems" obtain s2 where
    b: "compileUnsafe body (snd (reserveUnsafe safetySize st)) = Inr s2"
    and res: "st' = releaseUnsafe (fst (reserveUnsafe safetySize st)) safetySize s2"
    by (auto simp: split_beta split: sum.splits)
  have "tracks st stk (snd (reserveUnsafe safetySize st)) stk"
    by (rule tracks_reserveUnsafe)
  moreover have "tracks (snd (reserveUnsafe safetySize st)) stk s2 stk"
    using tracks_compileUnsafe(1) [OF b] "10.prems" by simp
  moreover have "tracks s2 stk st' stk"
    unfolding res by (rule tracks_releaseUnsafe)
  ultimately show ?case
    by (blast intro: tracks_trans)
next
  case (11 fuel name body st)
  then show ?case
    by (auto simp: tracks_def)
next
  case (12 name st)
  then show ?case by simp
next
  case (13 fuel name st)
  then show ?case by simp
next
  case (14 fuel name st)
  then show ?case by simp
qed

section \<open>The if statement over a tracked body\<close>

lemma tracks_emitted:
  assumes "tracks st stk st' stk'"
  shows "brainfuckCode st' = brainfuckCode st @ emitted st st'"
    and "track (emitted st st') (pointerLocation st) stk = Some (pointerLocation st', stk')"
  using assms by (auto simp: tracks_def emitted_def)

text \<open>
  C4, amended.  Let an \<open>if\<close> statement compile, and let its body contain, at any depth, no
  \<open>abstract\<close> escape whose text moves the pointer on balance or ends a loop on another cell
  than it started on, no loop of an unsafe block whose \<open>goto\<close> distances do not add up to
  zero, and no call (\<open>tracked_token\<close>).  The statement compiles to the code of the
  condition, the moves to the condition cell, \<open>[\<close>, the code of the body, the moves back to
  the condition cell, \<open>[-]\<close> and \<open>]\<close>.  Run the code after that of the condition from its
  start, with the tape pointer where the compiler tracks it.  When the condition cell
  holds zero, the run ends with nothing changed but the pointer, which is on the condition
  cell: the body ran zero times.  When the condition cell holds anything else, the code
  of the body, run from the condition cell, ends, the condition cell holds a number at
  that point and the modulus \<open>bits\<close> of the executor is positive, the run ends in the state
  in which the body ended, except that the condition cell holds zero and the pointer is on
  it: the body ran exactly once.  That the body leaves the pointer where the compiler
  tracks it, and that its brackets are balanced, is proved (\<open>compile_tracks\<close>,
  \<open>track_run\<close>), not assumed.
\<close>

theorem if_runs_its_body_once_or_not_at_all:
  assumes "conditionCell condition st = Inr (c, st1)"
    and "compile_tokens fuel body (steps [moveTo c, emit ''[''] st1) = Inr st2"
    and "list_all tracked_token body"
  shows
    "(\<exists>st'. compile_token fuel (IfToken condition body) st = Inr st'
        \<and> brainfuckCode st'
            = brainfuckCode st1
              @ if_code (pointerLocation st1) c (emitted (steps [moveTo c, emit ''[''] st1) st2)
                  (pointerLocation st2))
     \<and> (instructionPointer s0 = 0 \<and> dataPointer s0 = wrap (pointerLocation st1)
          \<and> mem_get (memory s0) (wrap c) = Num 0
        \<longrightarrow> (\<exists>n. run n (if_code (pointerLocation st1) c
                           (emitted (steps [moveTo c, emit ''[''] st1) st2) (pointerLocation st2))
                   opts s0
                   = Some (Inr (s0\<lparr>dataPointer := wrap c,
                        instructionPointer :=
                          length (if_code (pointerLocation st1) c
                                    (emitted (steps [moveTo c, emit ''[''] st1) st2)
                                    (pointerLocation st2))\<rparr>))))
     \<and> (instructionPointer s1 = 0 \<and> dataPointer s1 = wrap (pointerLocation st1)
          \<and> mem_get (memory s1) (wrap c) \<noteq> Num 0
          \<and> run nb (emitted (steps [moveTo c, emit ''[''] st1) st2) opts
                (s1\<lparr>dataPointer := wrap c\<rparr>) = Some (Inr sb)
          \<and> mem_get (memory sb) (wrap c) = Num v \<and> 0 < bits opts
        \<longrightarrow> (\<exists>n s'. run n (if_code (pointerLocation st1) c
                              (emitted (steps [moveTo c, emit ''[''] st1) st2)
                              (pointerLocation st2)) opts s1
                      = Some (Inr s')
                 \<and> dataPointer s' = wrap c
                 \<and> mem_get (memory s') = (mem_get (memory sb))(wrap c := Num 0)
                 \<and> outputText s' = outputText sb \<and> inputPointer s' = inputPointer sb))"
proof -
  let ?sa = "steps [moveTo c, emit ''[''] st1"
  let ?B = "emitted ?sa st2"
  let ?code = "if_code (pointerLocation st1) c ?B (pointerLocation st2)"
  have t: "tracks ?sa [] st2 []"
    using compile_tracks(1) [OF assms(2,3)] .
  note e = tracks_emitted [OF t]
  have pa: "pointerLocation ?sa = c"
    by (simp add: steps_def)
  have bal: "balanced ?B"
    using e(2) by (rule track_balanced)
  have agree: "dataPointer sb = wrap (pointerLocation st2)"
    if "instructionPointer s1 = 0"
      and "run nb ?B opts (s1\<lparr>dataPointer := wrap c\<rparr>) = Some (Inr sb)"
    using track_run [OF e(2) _ _ that(2)] that(1) by (simp add: pa)
  have 1: "\<exists>st'. compile_token fuel (IfToken condition body) st = Inr st'
        \<and> brainfuckCode st' = brainfuckCode st1 @ ?code"
    using compile_if_code [OF assms(1,2) e(1)] .
  have 2: "\<exists>n. run n ?code opts s0
                 = Some (Inr (s0\<lparr>dataPointer := wrap c, instructionPointer := length ?code\<rparr>))"
    if "instructionPointer s0 = 0" "dataPointer s0 = wrap (pointerLocation st1)"
      "mem_get (memory s0) (wrap c) = Num 0"
    using if_code_zero [OF that bal] .
  have 3: "\<exists>n s'. run n ?code opts s1 = Some (Inr s')
                 \<and> dataPointer s' = wrap c
                 \<and> mem_get (memory s') = (mem_get (memory sb))(wrap c := Num 0)
                 \<and> outputText s' = outputText sb \<and> inputPointer s' = inputPointer sb"
    if "instructionPointer s1 = 0" "dataPointer s1 = wrap (pointerLocation st1)"
      "mem_get (memory s1) (wrap c) \<noteq> Num 0"
      "run nb ?B opts (s1\<lparr>dataPointer := wrap c\<rparr>) = Some (Inr sb)"
      "mem_get (memory sb) (wrap c) = Num v" "0 < bits opts"
    using if_code_nonzero [OF that(1,2,3,4) agree [OF that(1,4)] that(5,6)] .
  show ?thesis
    using 1 2 3 by blast
qed

theorem if_runs_its_body_once_or_not_at_all_witness:
  "conditionCell (VariableToken ''c'' (IndexNumber 0)) if_example_state
     = Inr (0, if_example_state)
   \<and> compile_tokens 0 if_example_body (steps [moveTo 0, emit ''[''] if_example_state)
       = Inr (if_example_state\<lparr>brainfuckCode := ''[-]+++[.''\<rparr>)
   \<and> list_all tracked_token if_example_body
   \<and> (\<exists>st'. compile_token 0 (IfToken (VariableToken ''c'' (IndexNumber 0)) if_example_body)
                if_example_state = Inr st'
          \<and> brainfuckCode st' = ''[-]+++[.[-]]'')
   \<and> (\<exists>n. run n ''[.[-]]'' test_options start_state
            = Some (Inr (start_state\<lparr>instructionPointer := 6\<rparr>)))
   \<and> run 1 ''.'' test_options tape_with_three
       = Some (Inr (tape_with_three\<lparr>instructionPointer := 1, outputText := utf16 ''3''\<rparr>))
   \<and> (\<exists>n s'. run n ''[.[-]]'' test_options tape_with_three = Some (Inr s')
          \<and> dataPointer s' = 0 \<and> mem_get (memory s') 0 = Num 0
          \<and> outputText s' = utf16 ''3'')"
proof -
  let ?cond = "VariableToken ''c'' (IndexNumber 0)"
  let ?st2 = "if_example_state\<lparr>brainfuckCode := ''[-]+++[.''\<rparr>"
  let ?sb = "tape_with_three\<lparr>instructionPointer := 1, outputText := utf16 ''3''\<rparr>"
  have h1: "conditionCell ?cond if_example_state = Inr (0, if_example_state)"
    by (simp add: conditionCell_def findVariableLocation_def if_example_state_def)
  have h2: "compile_tokens 0 if_example_body (steps [moveTo 0, emit ''[''] if_example_state)
              = Inr ?st2"
    by (simp add: compile_eval if_example_body_def if_example_state_def
        cong: let_weak_cong prod.case_cong_weak)
  have h3: "list_all tracked_token if_example_body"
    by (simp add: if_example_body_def)
  have e: "emitted (steps [moveTo 0, emit ''[''] if_example_state) ?st2 = ''.''"
    by (simp add: emitted_def compile_eval if_example_state_def)
  have w: "wrap 0 = 0"
    by (simp add: wrap_def)
  have p: "pointerLocation if_example_state = 0" "pointerLocation ?st2 = 0"
    by (simp_all add: if_example_state_def)
  have c: "if_code 0 0 ''.'' 0 = ''[.[-]]''"
    by (simp add: if_code_def moves_def)
  have r: "run 1 ''.'' test_options (tape_with_three\<lparr>dataPointer := wrap 0\<rparr>) = Some (Inr ?sb)"
    by (simp add: run_eval tape_with_three_def test_options_def w)
  have t: "tape_with_three\<lparr>dataPointer := wrap 0\<rparr> = tape_with_three"
    by (simp add: tape_with_three_def w)
  note T = if_runs_its_body_once_or_not_at_all [OF h1 h2 h3,
      where ?s0.0 = start_state and opts = test_options and ?s1.0 = tape_with_three
        and nb = 1 and sb = ?sb and v = 3, unfolded e]
  have a0: "instructionPointer start_state = 0
      \<and> dataPointer start_state = wrap (pointerLocation if_example_state)
      \<and> mem_get (memory start_state) (wrap 0) = Num 0"
    by (simp add: p w start_state_def mem_get_def)
  have a1: "instructionPointer tape_with_three = 0
      \<and> dataPointer tape_with_three = wrap (pointerLocation if_example_state)
      \<and> mem_get (memory tape_with_three) (wrap 0) \<noteq> Num 0
      \<and> run 1 ''.'' test_options (tape_with_three\<lparr>dataPointer := wrap 0\<rparr>) = Some (Inr ?sb)
      \<and> mem_get (memory ?sb) (wrap 0) = Num 3 \<and> 0 < bits test_options"
    using r by (simp add: p w tape_with_three_def mem_get_def test_options_def)
  have z: "\<exists>n. run n ''[.[-]]'' test_options start_state
             = Some (Inr (start_state\<lparr>instructionPointer := 6\<rparr>))"
    using T [THEN conjunct2, THEN conjunct1, THEN mp, OF a0]
    by (simp add: p w c start_state_def eval_nat_numeral)
  have nz: "\<exists>n s'. run n ''[.[-]]'' test_options tape_with_three = Some (Inr s')
             \<and> dataPointer s' = 0 \<and> mem_get (memory s') 0 = Num 0
             \<and> outputText s' = utf16 ''3''"
  proof -
    from T [THEN conjunct2, THEN conjunct2, THEN mp, OF a1] obtain n s' where
      "run n ''[.[-]]'' test_options tape_with_three = Some (Inr s')"
      and "dataPointer s' = 0"
      and m: "mem_get (memory s') = (mem_get (memory ?sb))(0 := Num 0)"
      and "outputText s' = utf16 ''3''"
      by (auto simp: p w c)
    moreover have "mem_get (memory s') 0 = Num 0"
      by (simp add: m)
    ultimately show ?thesis
      by blast
  qed
  have i: "\<exists>st'. compile_token 0 (IfToken ?cond if_example_body) if_example_state = Inr st'
             \<and> brainfuckCode st' = ''[-]+++[.[-]]''"
    using T [THEN conjunct1] unfolding p c by (simp add: if_example_state_def)
  show ?thesis
    using h1 h2 h3 i z r nz by (simp add: t)
qed


end
